theory Spec2Isabelle
  imports Main "HOL-Library.Word"
begin

text \<open>
  A model of \<^verbatim>\<open>mirror_wiki.py\<close>, which copies a wiki from one host to another and, on the
  way, turns relative links such as \<^verbatim>\<open>[label](../Page)\<close> into flat ones such as
  \<^verbatim>\<open>[label](Page)\<close>. The model covers the two patterns and their replacement
  functions, the scan of a directory tree (\<^verbatim>\<open>convert_gitlab_wiki_links_in_dir\<close>) and the
  reading of the command line. Patterns are values of a datatype and are matched by
  a backtracking matcher that tries the alternatives in the order of \<^verbatim>\<open>re\<close>; the
  file system is an explicit state. The calls of \<^verbatim>\<open>git\<close> in \<^verbatim>\<open>copy_github_wiki\<close> are
  outside the model.
\<close>

section \<open>Text: Python strings as lists of code points\<close>

text \<open>
  A Python \<^verbatim>\<open>str\<close> is a sequence of Unicode code points, so a text is a list of
  naturals. \<open>str\<close> turns an ASCII literal into such a list.
\<close>

type_synonym codepoint = nat
type_synonym pystr = "codepoint list"

definition str :: "string \<Rightarrow> pystr" where
  "str s = map of_char s"

definition NL :: codepoint where "NL = 10"
definition LBRACK :: codepoint where "LBRACK = 91"
definition RBRACK :: codepoint where "RBRACK = 93"
definition LPAREN :: codepoint where "LPAREN = 40"
definition RPAREN :: codepoint where "RPAREN = 41"
definition HASH :: codepoint where "HASH = 35"
definition DOT :: codepoint where "DOT = 46"
definition SLASH :: codepoint where "SLASH = 47"
definition COLON :: codepoint where "COLON = 58"
definition DQUOTE :: codepoint where "DQUOTE = 34"
definition SQUOTE :: codepoint where "SQUOTE = 39"
definition SPACE :: codepoint where "SPACE = 32"

text \<open>
  The code points for which \<^verbatim>\<open>str.isspace\<close> holds. The class \<^verbatim>\<open>\s\<close> of a
  \<^verbatim>\<open>re.UNICODE\<close> pattern and \<^verbatim>\<open>str.strip()\<close> both use this set.
\<close>

definition is_space :: "codepoint \<Rightarrow> bool" where
  "is_space c \<longleftrightarrow>
     (9 \<le> c \<and> c \<le> 13) \<or> (28 \<le> c \<and> c \<le> 32) \<or> c = 133 \<or> c = 160 \<or> c = 5760 \<or>
     (8192 \<le> c \<and> c \<le> 8202) \<or> c = 8232 \<or> c = 8233 \<or> c = 8239 \<or> c = 8287 \<or> c = 12288"

definition strip :: "pystr \<Rightarrow> pystr" where
  "strip s = rev (dropWhile is_space (rev (dropWhile is_space s)))"

section \<open>A backtracking matcher for the patterns of \<^verbatim>\<open>re\<close>\<close>

text \<open>
  The constructs the two patterns of the program use. \<open>Cls P\<close> is a character class
  (also a negated one), \<open>Star\<close> and \<open>Opt\<close> are the greedy \<^verbatim>\<open>*\<close> and \<^verbatim>\<open>?\<close>,
  \<open>LazyStar\<close> is \<^verbatim>\<open>*?\<close>, \<open>Bol\<close> and \<open>Eol\<close> are \<^verbatim>\<open>^\<close> and \<^verbatim>\<open>$\<close> under
  \<^verbatim>\<open>re.MULTILINE\<close>, \<open>Group n\<close> is the n-th capturing group.
\<close>

datatype regex =
    Eps
  | Chr codepoint
  | Cls "codepoint \<Rightarrow> bool"
  | Seq regex regex
  | Alt regex regex
  | Star regex
  | LazyStar regex
  | Opt regex
  | Group nat regex
  | Bol
  | Eol

definition Plus :: "regex \<Rightarrow> regex" where
  "Plus r = Seq r (Star r)"

fun seqs :: "regex list \<Rightarrow> regex" where
  "seqs [] = Eps"
| "seqs [r] = r"
| "seqs (r # rs) = Seq r (seqs rs)"

definition lit :: "string \<Rightarrow> regex" where
  "lit s = seqs (map (\<lambda>c. Chr (of_char c)) s)"

text \<open>
  A matcher state: the code point before the current position (\<open>None\<close> at the start of
  the text), the text from the current position on, and the groups captured so far
  (the latest capture of a group first).
\<close>

type_synonym groups = "(nat \<times> pystr) list"
type_synonym mstate = "codepoint option \<times> pystr \<times> groups"

definition rest :: "mstate \<Rightarrow> pystr" where
  "rest st = fst (snd st)"

text \<open>
  One more iteration of a greedy loop is tried before leaving the loop; a lazy loop
  leaves first. An iteration counts only when it consumed text, which is what ends
  the recursion; every loop body of the two patterns consumes at least one code point.
\<close>

function star_iter :: "(mstate \<Rightarrow> mstate list) \<Rightarrow> mstate \<Rightarrow> mstate list" where
  "star_iter f st =
     concat (map (star_iter f) (filter (\<lambda>st'. length (rest st') < length (rest st)) (f st))) @ [st]"
  by pat_completeness auto
termination
  by (relation "measure (\<lambda>(f, st). length (rest st))") auto

function lazy_iter :: "(mstate \<Rightarrow> mstate list) \<Rightarrow> mstate \<Rightarrow> mstate list" where
  "lazy_iter f st =
     st # concat (map (lazy_iter f) (filter (\<lambda>st'. length (rest st') < length (rest st)) (f st)))"
  by pat_completeness auto
termination
  by (relation "measure (\<lambda>(f, st). length (rest st))") auto

declare star_iter.simps [simp del]
declare lazy_iter.simps [simp del]

text \<open>
  \<open>matches r st\<close> lists every way \<open>r\<close> matches at \<open>st\<close>, in the order in which the
  backtracking engine tries them: the first element is the engine's match.
\<close>

fun matches :: "regex \<Rightarrow> mstate \<Rightarrow> mstate list" where
  "matches Eps st = [st]"
| "matches (Chr a) (p, s, g) =
     (case s of [] \<Rightarrow> [] | x # xs \<Rightarrow> if x = a then [(Some x, xs, g)] else [])"
| "matches (Cls P) (p, s, g) =
     (case s of [] \<Rightarrow> [] | x # xs \<Rightarrow> if P x then [(Some x, xs, g)] else [])"
| "matches (Seq a b) st = concat (map (matches b) (matches a st))"
| "matches (Alt a b) st = matches a st @ matches b st"
| "matches (Star a) st = star_iter (matches a) st"
| "matches (LazyStar a) st = lazy_iter (matches a) st"
| "matches (Opt a) st = matches a st @ [st]"
| "matches (Group n a) (p, s, g) =
     map (\<lambda>(p', s', g'). (p', s', (n, take (length s - length s') s) # g')) (matches a (p, s, g))"
| "matches Bol (p, s, g) = (if p = None \<or> p = Some NL then [(p, s, g)] else [])"
| "matches Eol (p, s, g) = (case s of [] \<Rightarrow> [(p, s, g)] | x # xs \<Rightarrow> if x = NL then [(p, s, g)] else [])"

text \<open>
  The engine's match of \<open>r\<close> at a position. \<open>search\<close> of \<^verbatim>\<open>re\<close> may ask for a match
  that is not empty (after an empty match at the same position).
\<close>

definition match_here :: "regex \<Rightarrow> bool \<Rightarrow> codepoint option \<Rightarrow> pystr \<Rightarrow> mstate option" where
  "match_here r must_advance p s =
     find (\<lambda>st'. \<not> must_advance \<or> length (rest st') < length s) (matches r (p, s, []))"

section \<open>The two patterns\<close>

definition seg :: regex where
  "seg = Alt (lit ''../'') (lit ''./'')"

text \<open>Whether a text begins with \<^verbatim>\<open>../\<close> or \<^verbatim>\<open>./\<close>.\<close>

definition starts_seg :: "pystr \<Rightarrow> bool" where
  "starts_seg s \<longleftrightarrow> take 3 s = str ''../'' \<or> take 2 s = str ''./''"

definition LINK_INLINE_RE :: regex where
  "LINK_INLINE_RE = seqs
     [ Chr LBRACK, Group 1 (Plus (Cls (\<lambda>c. c \<noteq> RBRACK))), Chr RBRACK,
       Chr LPAREN,
       Star (Cls is_space),
       Plus seg,
       Star (Cls is_space),
       Group 2 (Seq (Cls (\<lambda>c. c \<noteq> RPAREN \<and> c \<noteq> HASH \<and> \<not> is_space c))
                    (LazyStar (Cls (\<lambda>c. c \<noteq> RPAREN \<and> c \<noteq> HASH)))),
       Opt (Group 3 (Seq (Chr HASH) (Plus (Cls (\<lambda>c. c \<noteq> RPAREN \<and> \<not> is_space c))))),
       Star (Cls is_space),
       Chr RPAREN ]"

definition REF_LINK_RE :: regex where
  "REF_LINK_RE = seqs
     [ Bol, Star (Cls is_space),
       Chr LBRACK, Group 1 (Plus (Cls (\<lambda>c. c \<noteq> RBRACK))), Chr RBRACK, Chr COLON,
       Star (Cls is_space),
       Plus seg,
       Star (Cls is_space),
       Group 2 (Seq (Cls (\<lambda>c. \<not> is_space c \<and> c \<noteq> HASH))
                    (Star (Cls (\<lambda>c. \<not> is_space c \<and> c \<noteq> HASH)))),
       Opt (Group 3 (Seq (Chr HASH) (Plus (Cls (\<lambda>c. \<not> is_space c))))),
       Opt (seqs [ Plus (Cls is_space), Cls (\<lambda>c. c = DQUOTE \<or> c = SQUOTE),
                   Plus (Cls (\<lambda>c. c \<noteq> NL)), Cls (\<lambda>c. c = DQUOTE \<or> c = SQUOTE) ]),
       Star (Cls is_space), Eol ]"

section \<open>Replacement functions and \<^verbatim>\<open>subn\<close>\<close>

datatype exn =
    AttributeError
  | FileNotFoundError
  | PermissionError
  | UnicodeDecodeError
  | UnicodeEncodeError

text \<open>\<^verbatim>\<open>m.group(n)\<close>: \<open>None\<close> for a group that did not take part in the match.\<close>

definition group :: "groups \<Rightarrow> nat \<Rightarrow> pystr option" where
  "group m n = map_of m n"

text \<open>How an f-string formats a group: \<^verbatim>\<open>None\<close> is printed as its name.\<close>

definition fmt :: "pystr option \<Rightarrow> pystr" where
  "fmt v = (case v of None \<Rightarrow> str ''None'' | Some s \<Rightarrow> s)"

text \<open>\<^verbatim>\<open>m.group(3) or ""\<close>\<close>

definition or_empty :: "pystr option \<Rightarrow> pystr" where
  "or_empty v = (case v of None \<Rightarrow> [] | Some s \<Rightarrow> s)"

text \<open>\<^verbatim>\<open>m.group(2).strip()\<close> raises \<^verbatim>\<open>AttributeError\<close> on \<^verbatim>\<open>None\<close>.\<close>

definition replace_inline_match :: "groups \<Rightarrow> exn + pystr" where
  "replace_inline_match m =
     (let label = group m 1 in
      case group m 2 of
        None \<Rightarrow> Inl AttributeError
      | Some p \<Rightarrow>
          (let path = strip p; anchor = or_empty (group m 3)
           in Inr (str ''['' @ fmt label @ str '']('' @ path @ anchor @ str '')'')))"

definition replace_ref_match :: "groups \<Rightarrow> exn + pystr" where
  "replace_ref_match m =
     (let label = group m 1 in
      case group m 2 of
        None \<Rightarrow> Inl AttributeError
      | Some p \<Rightarrow>
          (let path = strip p; anchor = or_empty (group m 3)
           in Inr (str ''['' @ fmt label @ str '']: '' @ path @ anchor)))"

text \<open>
  \<open>emit\<close> puts a replacement in front of the rest of the output and counts it;
  \<open>copy\<close> keeps a code point that no match covers. The first exception wins.
\<close>

fun emit :: "exn + pystr \<Rightarrow> exn + (pystr \<times> nat) \<Rightarrow> exn + (pystr \<times> nat)" where
  "emit (Inl e) _ = Inl e"
| "emit (Inr t) (Inl e) = Inl e"
| "emit (Inr t) (Inr (out, n)) = Inr (t @ out, Suc n)"

fun copy :: "codepoint \<Rightarrow> exn + (pystr \<times> nat) \<Rightarrow> exn + (pystr \<times> nat)" where
  "copy x (Inl e) = Inl e"
| "copy x (Inr (out, n)) = Inr (x # out, n)"

text \<open>
  \<^verbatim>\<open>pattern.subn(repl, text)\<close>: the leftmost match from the current position is
  replaced and the scan goes on behind it. After an empty match the next match at the
  same position has to consume text; if there is none, the scan moves on by one code
  point.
\<close>

function sub_scan ::
  "regex \<Rightarrow> (groups \<Rightarrow> exn + pystr) \<Rightarrow> codepoint option \<Rightarrow> pystr \<Rightarrow> exn + (pystr \<times> nat)"
where
  "sub_scan r f p s =
     (case match_here r False p s of
        None \<Rightarrow>
          (case s of
             [] \<Rightarrow> Inr ([], 0)
           | x # xs \<Rightarrow> copy x (sub_scan r f (Some x) xs))
      | Some (p', s', g) \<Rightarrow>
          if length s' < length s then emit (f g) (sub_scan r f p' s')
          else
            (case match_here r True p s of
               Some (p'', s'', g') \<Rightarrow> emit (f g) (emit (f g') (sub_scan r f p'' s''))
             | None \<Rightarrow>
                 (case s of
                    [] \<Rightarrow> emit (f g) (Inr ([], 0))
                  | x # xs \<Rightarrow> emit (f g) (copy x (sub_scan r f (Some x) xs)))))"
  by pat_completeness auto
termination
proof (relation "measure (\<lambda>(r, f, p, s). length s)")
  fix r :: regex and f :: "groups \<Rightarrow> exn + pystr" and p s x2 x y xa ya
  assume "match_here r True p s = Some x2" and "(xa, ya) = y" and "(x, y) = x2"
  then have "length (rest (x, xa, ya)) < length s"
    by (auto simp: match_here_def find_Some_iff)
  then show "((r, f, x, xa), r, f, p, s) \<in> measure (\<lambda>(r, f, p, s). length s)"
    by (simp add: rest_def)
qed auto

declare sub_scan.simps [simp del]

definition subn :: "regex \<Rightarrow> (groups \<Rightarrow> exn + pystr) \<Rightarrow> pystr \<Rightarrow> exn + (pystr \<times> nat)" where
  "subn r f s = sub_scan r f None s"

text \<open>The two rules applied to the content of one file, inline rule first.\<close>

definition rewrite_content :: "pystr \<Rightarrow> exn + (pystr \<times> nat)" where
  "rewrite_content content =
     (case subn LINK_INLINE_RE replace_inline_match content of
        Inl e \<Rightarrow> Inl e
      | Inr (c1, n1) \<Rightarrow>
          (case subn REF_LINK_RE replace_ref_match c1 of
             Inl e \<Rightarrow> Inl e
           | Inr (c2, n2) \<Rightarrow> Inr (c2, n1 + n2)))"

section \<open>Shapes of links\<close>

text \<open>
  A label is what \<^verbatim>\<open>[^\]]+\<close> takes; a prefix is one or more segments \<^verbatim>\<open>../\<close> or
  \<^verbatim>\<open>./\<close>. The path of an inline link may hold blanks inside but neither \<^verbatim>\<open>)\<close>
  nor \<^verbatim>\<open>#\<close>, and is not itself the start of a longer prefix; its anchor, when
  there is one, is \<^verbatim>\<open>#\<close> and at least one code point that is neither blank nor
  \<^verbatim>\<open>)\<close>.
\<close>

definition is_label :: "pystr \<Rightarrow> bool" where
  "is_label L \<longleftrightarrow> L \<noteq> [] \<and> RBRACK \<notin> set L"

definition rel_prefix :: "pystr list \<Rightarrow> bool" where
  "rel_prefix segs \<longleftrightarrow> segs \<noteq> [] \<and> (\<forall>x\<in>set segs. x = str ''../'' \<or> x = str ''./'')"

definition inline_path :: "pystr \<Rightarrow> bool" where
  "inline_path X \<longleftrightarrow>
     X \<noteq> [] \<and> \<not> is_space (hd X) \<and> \<not> is_space (last X) \<and>
     RPAREN \<notin> set X \<and> HASH \<notin> set X \<and> \<not> starts_seg X"

definition inline_anchor :: "pystr \<Rightarrow> bool" where
  "inline_anchor A \<longleftrightarrow>
     A = [] \<or> (hd A = HASH \<and> tl A \<noteq> [] \<and> (\<forall>c\<in>set (tl A). c \<noteq> RPAREN \<and> \<not> is_space c))"

text \<open>
  A run of blanks; the path of a reference definition (no blank, no \<^verbatim>\<open>#\<close>) and its
  anchor (\<^verbatim>\<open>#\<close> and at least one code point, none of them blank); a quote that may
  open or close a title.
\<close>

definition blanks :: "pystr \<Rightarrow> bool" where
  "blanks w \<longleftrightarrow> (\<forall>c\<in>set w. is_space c)"

definition ref_path :: "pystr \<Rightarrow> bool" where
  "ref_path X \<longleftrightarrow> X \<noteq> [] \<and> (\<forall>c\<in>set X. \<not> is_space c \<and> c \<noteq> HASH)"

definition ref_anchor :: "pystr \<Rightarrow> bool" where
  "ref_anchor A \<longleftrightarrow> A = [] \<or> (hd A = HASH \<and> tl A \<noteq> [] \<and> (\<forall>c\<in>set (tl A). \<not> is_space c))"

definition is_quote :: "codepoint \<Rightarrow> bool" where
  "is_quote q \<longleftrightarrow> q = DQUOTE \<or> q = SQUOTE"

text \<open>
  Whether a text holds a link target that still begins with a segment: \<^verbatim>\<open>](\<close> or
  \<^verbatim>\<open>]:\<close>, then blanks or none, then \<^verbatim>\<open>../\<close> or \<^verbatim>\<open>./\<close>.
\<close>

fun has_rel_target :: "pystr \<Rightarrow> bool" where
  "has_rel_target [] = False"
| "has_rel_target (a # s) =
     ((a = RBRACK \<and>
       (case s of
          [] \<Rightarrow> False
        | b # r \<Rightarrow> (b = LPAREN \<or> b = COLON) \<and> starts_seg (dropWhile is_space r))) \<or>
      has_rel_target s)"

section \<open>Files: decoding, reading and writing\<close>

type_synonym byte = "8 word"

definition is_cont :: "byte \<Rightarrow> bool" where
  "is_cont b \<longleftrightarrow> 128 \<le> unat b \<and> unat b \<le> 191"

definition cont :: "byte \<Rightarrow> nat" where
  "cont b = unat b - 128"

text \<open>
  The strict UTF-8 decoder of \<^verbatim>\<open>open(..., encoding="utf-8")\<close>: \<open>None\<close> is
  \<^verbatim>\<open>UnicodeDecodeError\<close>. Overlong forms, surrogates and values beyond U+10FFFF are
  refused.
\<close>

fun utf8_decode :: "byte list \<Rightarrow> pystr option" where
  "utf8_decode [] = Some []"
| "utf8_decode (b0 # bs) =
     (if unat b0 < 128 then map_option ((#) (unat b0)) (utf8_decode bs)
      else if 194 \<le> unat b0 \<and> unat b0 \<le> 223 then
        (case bs of
           b1 # r \<Rightarrow>
             if is_cont b1
             then map_option ((#) ((unat b0 - 192) * 64 + cont b1)) (utf8_decode r)
             else None
         | _ \<Rightarrow> None)
      else if 224 \<le> unat b0 \<and> unat b0 \<le> 239 then
        (case bs of
           b1 # b2 # r \<Rightarrow>
             if is_cont b1 \<and> is_cont b2 \<and> (unat b0 = 224 \<longrightarrow> 160 \<le> unat b1) \<and>
                (unat b0 = 237 \<longrightarrow> unat b1 < 160)
             then map_option ((#) ((unat b0 - 224) * 4096 + cont b1 * 64 + cont b2))
                    (utf8_decode r)
             else None
         | _ \<Rightarrow> None)
      else if 240 \<le> unat b0 \<and> unat b0 \<le> 244 then
        (case bs of
           b1 # b2 # b3 # r \<Rightarrow>
             if is_cont b1 \<and> is_cont b2 \<and> is_cont b3 \<and> (unat b0 = 240 \<longrightarrow> 144 \<le> unat b1) \<and>
                (unat b0 = 244 \<longrightarrow> unat b1 < 144)
             then map_option
                    ((#) ((unat b0 - 240) * 262144 + cont b1 * 4096 + cont b2 * 64 + cont b3))
                    (utf8_decode r)
             else None
         | _ \<Rightarrow> None)
      else None)"

text \<open>Latin-1 maps every byte to the code point of the same value; it cannot fail.\<close>

definition latin1_decode :: "byte list \<Rightarrow> pystr" where
  "latin1_decode bs = map unat bs"

text \<open>The UTF-8 encoder; \<open>None\<close> is \<^verbatim>\<open>UnicodeEncodeError\<close> (a surrogate).\<close>

definition encode_cp :: "codepoint \<Rightarrow> byte list option" where
  "encode_cp c =
     (if c < 128 then Some [of_nat c]
      else if c < 2048 then Some [of_nat (192 + c div 64), of_nat (128 + c mod 64)]
      else if c < 65536 then
        (if 55296 \<le> c \<and> c \<le> 57343 then None
         else Some [of_nat (224 + c div 4096), of_nat (128 + c div 64 mod 64),
                    of_nat (128 + c mod 64)])
      else if c < 1114112 then
        Some [of_nat (240 + c div 262144), of_nat (128 + c div 4096 mod 64),
              of_nat (128 + c div 64 mod 64), of_nat (128 + c mod 64)]
      else None)"

fun utf8_encode :: "pystr \<Rightarrow> byte list option" where
  "utf8_encode [] = Some []"
| "utf8_encode (c # cs) =
     (case encode_cp c of
        None \<Rightarrow> None
      | Some bs \<Rightarrow> map_option ((@) bs) (utf8_encode cs))"

text \<open>
  Text mode translates line ends when reading: \<^verbatim>\<open>\r\n\<close> and a lone \<^verbatim>\<open>\r\<close> become
  \<^verbatim>\<open>\n\<close>. (When writing, \<^verbatim>\<open>\n\<close> becomes the line end of the platform, which is
  \<^verbatim>\<open>\n\<close> itself on POSIX; the model is the POSIX one.)
\<close>

fun universal_newlines :: "pystr \<Rightarrow> pystr" where
  "universal_newlines [] = []"
| "universal_newlines [x] = (if x = 13 then [NL] else [x])"
| "universal_newlines (x # y # s) =
     (if x = 13 \<and> y = NL then NL # universal_newlines s
      else if x = 13 then NL # universal_newlines (y # s)
      else x # universal_newlines (y # s))"

text \<open>
  The file system is a map from paths to files; a file has its bytes and says whether
  it may be opened for reading and for writing. The world also records every
  \<^verbatim>\<open>open\<close> the program makes, in order. Output to the terminal is not modelled.
\<close>

datatype encoding = UTF8 | Latin1

record fnode =
  data :: "byte list"
  readable :: bool
  writable :: bool

datatype io_op = OpenRead pystr encoding | OpenWrite pystr

record world =
  files :: "pystr \<Rightarrow> fnode option"
  oplog :: "io_op list"

definition log_op :: "io_op \<Rightarrow> world \<Rightarrow> world" where
  "log_op op w = w\<lparr>oplog := oplog w @ [op]\<rparr>"

text \<open>\<^verbatim>\<open>with open(filepath, "r", encoding=enc) as fh: content = fh.read()\<close>\<close>

definition open_read :: "world \<Rightarrow> pystr \<Rightarrow> encoding \<Rightarrow> world \<times> (exn + pystr)" where
  "open_read w path enc =
     (let w' = log_op (OpenRead path enc) w in
      case files w path of
        None \<Rightarrow> (w', Inl FileNotFoundError)
      | Some nd \<Rightarrow>
          if \<not> readable nd then (w', Inl PermissionError)
          else
            (case enc of
               UTF8 \<Rightarrow>
                 (case utf8_decode (data nd) of
                    None \<Rightarrow> (w', Inl UnicodeDecodeError)
                  | Some t \<Rightarrow> (w', Inr (universal_newlines t)))
             | Latin1 \<Rightarrow> (w', Inr (universal_newlines (latin1_decode (data nd))))))"

text \<open>
  The \<^verbatim>\<open>try\<close> of the loop body: \<^verbatim>\<open>except Exception\<close> catches whatever the first
  attempt raises, and the second attempt is outside any handler.
\<close>

definition read_file :: "world \<Rightarrow> pystr \<Rightarrow> world \<times> (exn + pystr)" where
  "read_file w path =
     (case open_read w path UTF8 of
        (w1, Inr c) \<Rightarrow> (w1, Inr c)
      | (w1, Inl e) \<Rightarrow> open_read w1 path Latin1)"

text \<open>
  \<^verbatim>\<open>with open(filepath, "w", encoding="utf-8") as fh: fh.write(new_content)\<close>: opening
  truncates the file (or creates it); a text that cannot be encoded leaves it empty.
\<close>

definition write_file :: "world \<Rightarrow> pystr \<Rightarrow> pystr \<Rightarrow> world \<times> (exn + unit)" where
  "write_file w path text =
     (let w' = log_op (OpenWrite path) w;
          nd = (case files w path of
                  None \<Rightarrow> \<lparr>data = [], readable = True, writable = True\<rparr>
                | Some n \<Rightarrow> n)
      in if \<not> writable nd then (w', Inl PermissionError)
         else
           (case utf8_encode text of
              None \<Rightarrow> (w'\<lparr>files := (files w')(path \<mapsto> nd\<lparr>data := []\<rparr>)\<rparr>, Inl UnicodeEncodeError)
            | Some bs \<Rightarrow> (w'\<lparr>files := (files w')(path \<mapsto> nd\<lparr>data := bs\<rparr>)\<rparr>, Inr ())))"

section \<open>The scan of the directory tree\<close>

text \<open>
  \<^verbatim>\<open>str.lower()\<close>, as far as a test for an ASCII suffix can tell: the ASCII capitals, and
  the two other code points whose lower case holds an ASCII letter (U+0130 and the
  Kelvin sign U+212A). Every other code point lower-cases to itself or to code points
  beyond ASCII, and is left as it is here.
\<close>

definition lower_cp :: "codepoint \<Rightarrow> pystr" where
  "lower_cp c =
     (if 65 \<le> c \<and> c \<le> 90 then [c + 32]
      else if c = 304 then [105, 775]
      else if c = 8490 then [107]
      else [c])"

definition lower :: "pystr \<Rightarrow> pystr" where
  "lower s = concat (map lower_cp s)"

definition endswith :: "pystr \<Rightarrow> pystr \<Rightarrow> bool" where
  "endswith s suffix \<longleftrightarrow>
     length suffix \<le> length s \<and> drop (length s - length suffix) s = suffix"

text \<open>\<^verbatim>\<open>filename.lower().endswith((".md", ".markdown"))\<close>\<close>

definition is_markdown_name :: "pystr \<Rightarrow> bool" where
  "is_markdown_name filename \<longleftrightarrow>
     endswith (lower filename) (str ''.md'') \<or> endswith (lower filename) (str ''.markdown'')"

text \<open>\<^verbatim>\<open>os.path.join\<close> of two components on POSIX.\<close>

definition os_path_join :: "pystr \<Rightarrow> pystr \<Rightarrow> pystr" where
  "os_path_join a b =
     (if b \<noteq> [] \<and> hd b = SLASH then b
      else if a = [] \<or> last a = SLASH then a @ b
      else a @ [SLASH] @ b)"

text \<open>
  The body of the loop for one file that passed the filter. The counters are the pair
  \<open>(files_changed, total_replacements)\<close>; an exception ends the scan and is returned
  with the world as it is then.
\<close>

definition visit :: "world \<Rightarrow> pystr \<Rightarrow> nat \<times> nat \<Rightarrow> world \<times> (exn + nat \<times> nat)" where
  "visit w filepath acc =
     (case read_file w filepath of
        (w1, Inl e) \<Rightarrow> (w1, Inl e)
      | (w1, Inr content) \<Rightarrow>
          (case rewrite_content content of
             Inl e \<Rightarrow> (w1, Inl e)
           | Inr (new_content, n) \<Rightarrow>
               if n > 0 then
                 (case write_file w1 filepath new_content of
                    (w2, Inl e) \<Rightarrow> (w2, Inl e)
                  | (w2, Inr u) \<Rightarrow> (w2, Inr (fst acc + 1, snd acc + n)))
               else (w1, Inr acc)))"

fun scan_files ::
  "world \<Rightarrow> pystr \<Rightarrow> pystr list \<Rightarrow> nat \<times> nat \<Rightarrow> world \<times> (exn + nat \<times> nat)"
where
  "scan_files w root [] acc = (w, Inr acc)"
| "scan_files w root (filename # others) acc =
     (if \<not> is_markdown_name filename then scan_files w root others acc
      else
        (case visit w (os_path_join root filename) acc of
           (w', Inl e) \<Rightarrow> (w', Inl e)
         | (w', Inr acc') \<Rightarrow> scan_files w' root others acc'))"

text \<open>
  \<open>walk\<close> is what \<^verbatim>\<open>os.walk(wiki_dir)\<close> yields: the directories in its order, each
  with the names of its files. The flag \<^verbatim>\<open>verbose\<close> only decides what is printed and
  has no place in the model.
\<close>

fun scan_dirs ::
  "world \<Rightarrow> (pystr \<times> pystr list) list \<Rightarrow> nat \<times> nat \<Rightarrow> world \<times> (exn + nat \<times> nat)"
where
  "scan_dirs w [] acc = (w, Inr acc)"
| "scan_dirs w ((root, filenames) # others) acc =
     (case scan_files w root filenames acc of
        (w', Inl e) \<Rightarrow> (w', Inl e)
      | (w', Inr acc') \<Rightarrow> scan_dirs w' others acc')"

definition convert_gitlab_wiki_links_in_dir ::
  "world \<Rightarrow> (pystr \<times> pystr list) list \<Rightarrow> world \<times> (exn + nat \<times> nat)"
where
  "convert_gitlab_wiki_links_in_dir w walk = scan_dirs w walk (0, 0)"

text \<open>
  The paths of the files the scan takes up, in order; the replacement count of a file
  as it is in a world; the paths opened for writing in a log.
\<close>

definition visited :: "(pystr \<times> pystr list) list \<Rightarrow> pystr list" where
  "visited walk =
     concat (map (\<lambda>(root, filenames).
                    map (os_path_join root) (filter is_markdown_name filenames)) walk)"

definition file_count :: "world \<Rightarrow> pystr \<Rightarrow> nat" where
  "file_count w path =
     (case snd (read_file w path) of
        Inl e \<Rightarrow> 0
      | Inr content \<Rightarrow> (case rewrite_content content of Inl e \<Rightarrow> 0 | Inr (c, n) \<Rightarrow> n))"



section \<open>The command line\<close>




section \<open>Example worlds\<close>

text \<open>
  A small wiki for the concrete checks: a page with two inline links, a page in a
  subdirectory with a reference definition that has a title, a page without links, and
  a text file that is not markdown but holds a link. Then a file that nobody may read,
  and a file in Latin-1 that is not valid UTF-8.
\<close>

definition bytes_of :: "string \<Rightarrow> byte list" where
  "bytes_of s = map of_char s"

definition plain_file :: "byte list \<Rightarrow> fnode" where
  "plain_file bs = \<lparr>data = bs, readable = True, writable = True\<rparr>"

definition example_world :: world where
  "example_world =
     \<lparr>files =
        [str ''wiki/a.md'' \<mapsto> plain_file (bytes_of ''[x](../P) and [y](../../Q#s)''),
         str ''wiki/sub/b.MD'' \<mapsto> plain_file (bytes_of ''[r]: ./R \"t\"''),
         str ''wiki/c.markdown'' \<mapsto> plain_file (bytes_of ''no links''),
         str ''wiki/notes.txt'' \<mapsto> plain_file (bytes_of ''[x](../P)'')],
      oplog = []\<rparr>"

definition example_walk :: "(pystr \<times> pystr list) list" where
  "example_walk =
     [(str ''wiki'', [str ''a.md'', str ''c.markdown'', str ''notes.txt'']),
      (str ''wiki/sub'', [str ''b.MD''])]"

definition locked_world :: world where
  "locked_world =
     \<lparr>files = [str ''wiki/a.md'' \<mapsto> \<lparr>data = bytes_of ''[x](../P)'', readable = False, writable = True\<rparr>],
      oplog = []\<rparr>"

definition latin1_world :: world where
  "latin1_world =
     \<lparr>files = [str ''wiki/a.md'' \<mapsto> plain_file [99, 97, 102, 233]],
      oplog = []\<rparr>"

section \<open>Auxiliary notions for the proofs\<close>

text \<open>
  \<open>run rs\<close> matches a list of patterns one after the other. \<open>greedy_cls\<close> and
  \<open>lazy_cls\<close> are what a greedy and a lazy loop over one character class produce;
  \<open>prev_after p w\<close> is the code point before the position reached by consuming \<open>w\<close>.
\<close>

fun run :: "regex list \<Rightarrow> mstate \<Rightarrow> mstate list" where
  "run [] st = [st]"
| "run (r # rs) st = concat (map (run rs) (matches r st))"

fun greedy_cls :: "(codepoint \<Rightarrow> bool) \<Rightarrow> codepoint option \<Rightarrow> pystr \<Rightarrow> groups \<Rightarrow> mstate list" where
  "greedy_cls P p [] g = [(p, [], g)]"
| "greedy_cls P p (x # xs) g = (if P x then greedy_cls P (Some x) xs g else []) @ [(p, x # xs, g)]"

fun lazy_cls :: "(codepoint \<Rightarrow> bool) \<Rightarrow> codepoint option \<Rightarrow> pystr \<Rightarrow> groups \<Rightarrow> mstate list" where
  "lazy_cls P p [] g = [(p, [], g)]"
| "lazy_cls P p (x # xs) g = (p, x # xs, g) # (if P x then lazy_cls P (Some x) xs g else [])"

definition prev_after :: "codepoint option \<Rightarrow> pystr \<Rightarrow> codepoint option" where
  "prev_after p w = (if w = [] then p else Some (last w))"

definition inline_tail :: "regex list" where
  "inline_tail =
     [Opt (Group 3 (Seq (Chr HASH) (Plus (Cls (\<lambda>c. c \<noteq> RPAREN \<and> \<not> is_space c))))),
      Star (Cls is_space), Chr RPAREN]"


definition title_list :: "regex list" where
  "title_list =
     [Plus (Cls is_space), Cls (\<lambda>c. c = DQUOTE \<or> c = SQUOTE),
      Plus (Cls (\<lambda>c. c \<noteq> NL)), Cls (\<lambda>c. c = DQUOTE \<or> c = SQUOTE)]"

definition ref_end :: "regex list" where
  "ref_end = [Opt (seqs title_list), Star (Cls is_space), Eol]"

definition ref_tail :: "regex list" where
  "ref_tail = Opt (Group 3 (Seq (Chr HASH) (Plus (Cls (\<lambda>c. \<not> is_space c))))) # ref_end"


text \<open>The groups of a matcher state.\<close>

definition grps :: "mstate \<Rightarrow> groups" where
  "grps st = snd (snd st)"

section \<open>Facts about the matcher\<close>

lemma matches_seqs: "matches (seqs rs) st = run rs st"
proof (induction rs arbitrary: st rule: seqs.induct)
  case 1 show ?case by simp
next
  case (2 r)
  have "run [] = (\<lambda>st. [st])" by (rule ext) simp
  then show ?case by simp
next
  case (3 r v va)
  have h: "matches (seqs (v # va)) = run (v # va)" by (rule ext) (rule 3)
  show ?case by (simp only: seqs.simps matches.simps run.simps h)
qed

lemma star_cls: "matches (Star (Cls P)) (p, s, g) = greedy_cls P p s g"
proof (induction s arbitrary: p)
  case Nil
  show ?case by (simp add: star_iter.simps [of _ "(p, [], g)"] rest_def)
next
  case (Cons x xs)
  show ?case using Cons [of "Some x"]
    by (simp add: star_iter.simps [of _ "(p, x # xs, g)"] rest_def)
qed

lemma lazystar_cls: "matches (LazyStar (Cls P)) (p, s, g) = lazy_cls P p s g"
proof (induction s arbitrary: p)
  case Nil
  show ?case by (simp add: lazy_iter.simps [of _ "(p, [], g)"] rest_def)
next
  case (Cons x xs)
  show ?case using Cons [of "Some x"]
    by (simp add: lazy_iter.simps [of _ "(p, x # xs, g)"] rest_def)
qed

lemma greedy_cls_bind:
  assumes "\<And>p' x s'. P x \<Longrightarrow> k (p', x # s', g) = []"
  shows "concat (map k (greedy_cls P p s g)) = k (prev_after p (takeWhile P s), dropWhile P s, g)"
  using assms by (induction s arbitrary: p) (auto simp: prev_after_def)

lemma greedy_cls_first:
  "\<exists>t. greedy_cls P p s g = (prev_after p (takeWhile P s), dropWhile P s, g) # t"
proof (induction s arbitrary: p)
  case Nil
  show ?case by (simp add: prev_after_def)
next
  case (Cons x xs)
  show ?case
  proof (cases "P x")
    case True
    from Cons [of "Some x"] obtain t where
      "greedy_cls P (Some x) xs g = (prev_after (Some x) (takeWhile P xs), dropWhile P xs, g) # t" ..
    with True show ?thesis by (simp add: prev_after_def)
  next
    case False
    then show ?thesis by (simp add: prev_after_def)
  qed
qed


lemma bind_assoc: "concat (map f (concat (map h xs))) = concat (map (\<lambda>x. concat (map f (h x))) xs)"
  by (induction xs) simp_all

lemma run_append: "run (as @ bs) st = concat (map (run bs) (run as st))"
proof (induction as arbitrary: st)
  case Nil
  show ?case by simp
next
  case (Cons a as)
  have "run (as @ bs) = (\<lambda>st. concat (map (run bs) (run as st)))"
    by (rule ext) (rule Cons)
  then show ?case by (simp add: bind_assoc)
qed

lemma run_Cons_fun: "run (r # rs) = (\<lambda>st. concat (map (run rs) (matches r st)))"
  by (rule ext) simp

lemma run_Seq: "run (Seq a b # rs) st = run (a # b # rs) st"
  by (simp add: bind_assoc run_Cons_fun [of b])

lemma run_Plus: "run (Plus r # rs) st = run (r # Star r # rs) st"
  unfolding Plus_def by (rule run_Seq)

lemma run_Opt: "run (Opt r # rs) st = run (r # rs) st @ run rs st"
  by simp

lemma run_seqs: "run (seqs as # rs) st = run (as @ rs) st"
  by (simp add: matches_seqs run_append)

lemma run_Chr_Cons: "run (Chr a # rs) (p, x # s, g) = (if x = a then run rs (Some x, s, g) else [])"
  by simp

lemma run_Chr_Nil: "run (Chr a # rs) (p, [], g) = []"
  by simp

lemma run_Cls_Cons: "run (Cls P # rs) (p, x # s, g) = (if P x then run rs (Some x, s, g) else [])"
  by simp

lemma run_Cls_Nil: "run (Cls P # rs) (p, [], g) = []"
  by simp

lemma run_Star_cls:
  assumes "\<And>p' x s'. P x \<Longrightarrow> run rs (p', x # s', g) = []"
  shows "run (Star (Cls P) # rs) (p, s, g) = run rs (prev_after p (takeWhile P s), dropWhile P s, g)"
  unfolding run.simps star_cls using assms by (rule greedy_cls_bind)

lemma run_Star_cls_first:
  "\<exists>t. run (Star (Cls P) # rs) (p, s, g) = run rs (prev_after p (takeWhile P s), dropWhile P s, g) @ t"
proof -
  obtain t where "greedy_cls P p s g = (prev_after p (takeWhile P s), dropWhile P s, g) # t"
    using greedy_cls_first by blast
  then show ?thesis unfolding run.simps star_cls by simp
qed

lemma run_Bol: "run (Bol # rs) (None, s, g) = run rs (None, s, g)"
  by simp

lemma run_Eol_Nil: "run [Eol] (p, [], g) = [(p, [], g)]"
  by simp

text \<open>capturing a text that starts in a class and goes on greedily in a class\<close>

lemma take_diff_dropWhile: "take (Suc (length s) - length (dropWhile P s)) (x # s) = x # takeWhile P s"
proof -
  have "length s = length (takeWhile P s) + length (dropWhile P s)"
    by (metis length_append takeWhile_dropWhile_id)
  then have "Suc (length s) - length (dropWhile P s) = Suc (length (takeWhile P s))" by simp
  moreover have "take (length (takeWhile P s)) s = takeWhile P s"
    by (metis append_eq_conv_conj takeWhile_dropWhile_id)
  ultimately show ?thesis by simp
qed

lemma run_Group_cls_star:
  assumes "\<And>p' y s' g'. P2 y \<Longrightarrow> run rs (p', y # s', g') = []"
  shows "run (Group n (Seq (Cls P1) (Star (Cls P2))) # rs) (p, x # s, g) =
           (if P1 x then run rs (prev_after (Some x) (takeWhile P2 s), dropWhile P2 s, (n, x # takeWhile P2 s) # g)
            else [])"
proof (cases "P1 x")
  case False
  then show ?thesis by simp
next
  case True
  let ?cap = "\<lambda>(p', s', g'). (p', s', (n, take (length (x # s) - length s') (x # s)) # g')"
  have "run (Group n (Seq (Cls P1) (Star (Cls P2))) # rs) (p, x # s, g) =
          concat (map (run rs \<circ> ?cap) (greedy_cls P2 (Some x) s g))"
    using True by (simp add: star_cls del: matches.simps(6))
  also have "\<dots> = (run rs \<circ> ?cap) (prev_after (Some x) (takeWhile P2 s), dropWhile P2 s, g)"
    by (rule greedy_cls_bind) (simp add: assms)
  finally show ?thesis using True by (simp add: take_diff_dropWhile)
qed


lemma run_Group_cls_fail: "\<not> P1 x \<Longrightarrow> run (Group n (Seq (Cls P1) r) # rs) (p, x # s, g) = []"
  by simp

lemma run_Group_chr_fail: "x \<noteq> a \<Longrightarrow> run (Group n (Seq (Chr a) r) # rs) (p, x # s, g) = []"
  by simp

lemma run_Group_Nil_fail: "run (Group n (Seq (Chr a) r) # rs) (p, [], g) = []"
  by simp

lemma seg_dotdot: "matches seg (p, str ''../'' @ r, g) = [(Some SLASH, r, g)]"
  by (simp add: seg_def lit_def str_def SLASH_def)

lemma seg_dot: "matches seg (p, str ''./'' @ r, g) = [(Some SLASH, r, g)]"
  by (simp add: seg_def lit_def str_def SLASH_def)

lemma seg_in: "x = str ''../'' \<or> x = str ''./'' \<Longrightarrow> matches seg (p, x @ r, g) = [(Some SLASH, r, g)]"
  using seg_dotdot seg_dot by blast

lemma seg_none: "\<not> starts_seg s \<Longrightarrow> matches seg (p, s, g) = []"
  by (auto simp: seg_def lit_def str_def starts_seg_def split: list.splits)

lemma seg_some: "matches seg (p, s, g) \<noteq> [] \<Longrightarrow> starts_seg s"
  using seg_none by blast

lemma star_seg_first:
  assumes "\<forall>x\<in>set segs. x = str ''../'' \<or> x = str ''./''" and "\<not> starts_seg r"
  shows "\<exists>t. matches (Star seg) (Some SLASH, concat segs @ r, g) = (Some SLASH, r, g) # t"
  using assms(1)
proof (induction segs)
  case Nil
  show ?case using assms(2)
    by (simp add: star_iter.simps [of _ "(Some SLASH, r, g)"] seg_none)
next
  case (Cons x segs)
  then obtain t where t: "matches (Star seg) (Some SLASH, concat segs @ r, g) = (Some SLASH, r, g) # t"
    by auto
  have x: "x = str ''../'' \<or> x = str ''./''" using Cons.prems by simp
  then have m: "matches seg (Some SLASH, x @ concat segs @ r, g) = [(Some SLASH, concat segs @ r, g)]"
    by (rule seg_in)
  have "x \<noteq> []" using x by (auto simp: str_def)
  then have "star_iter (matches seg) (Some SLASH, x @ concat segs @ r, g) =
          star_iter (matches seg) (Some SLASH, concat segs @ r, g) @ [(Some SLASH, x @ concat segs @ r, g)]"
    by (subst star_iter.simps) (simp add: m rest_def)
  with t show ?case by simp
qed

lemma run_Plus_seg_first:
  assumes "segs \<noteq> []" "\<forall>x\<in>set segs. x = str ''../'' \<or> x = str ''./''" and "\<not> starts_seg r"
  shows "\<exists>t. run (Plus seg # rs) (p, concat segs @ r, g) = run rs (Some SLASH, r, g) @ t"
proof -
  from assms(1) obtain x segs' where segs: "segs = x # segs'" by (cases segs) auto
  with assms(2) have x: "x = str ''../'' \<or> x = str ''./''" and
    rest: "\<forall>x\<in>set segs'. x = str ''../'' \<or> x = str ''./''" by auto
  from star_seg_first [OF rest assms(3)] obtain t where
    t: "matches (Star seg) (Some SLASH, concat segs' @ r, g) = (Some SLASH, r, g) # t" by blast
  have "run (Plus seg # rs) (p, concat segs @ r, g) = run (Star seg # rs) (Some SLASH, concat segs' @ r, g)"
    unfolding run_Plus segs using seg_in [OF x, of p "concat segs' @ r" g]
    by (simp del: matches.simps)
  also have "\<dots> = run rs (Some SLASH, r, g) @ concat (map (run rs) t)"
    using t by (simp del: matches.simps)
  finally show ?thesis by blast
qed

lemma run_Plus_seg_fail: "\<not> starts_seg s \<Longrightarrow> run (Plus seg # rs) (p, s, g) = []"
  unfolding run_Plus by (simp add: seg_none del: matches.simps)

lemma prev_after_Cons: "prev_after p (a # w) = prev_after (Some a) w"
  by (simp add: prev_after_def)

lemma prev_after_Nil: "prev_after p [] = p"
  by (simp add: prev_after_def)

lemma lazy_cls_bind_first:
  assumes "\<forall>x\<in>set u. P x"
    and "\<And>i. i < length u \<Longrightarrow> k (prev_after p (take i u), drop i u @ v, g) = []"
  shows "\<exists>t. concat (map k (lazy_cls P p (u @ v) g)) = k (prev_after p u, v, g) @ t"
  using assms
proof (induction u arbitrary: p)
  case Nil
  show ?case by (cases v) (simp_all add: prev_after_def)
next
  case (Cons a u)
  have "\<And>i. i < length u \<Longrightarrow> k (prev_after (Some a) (take i u), drop i u @ v, g) = []"
  proof -
    fix i assume "i < length u"
    then have "k (prev_after p (take (Suc i) (a # u)), drop (Suc i) (a # u) @ v, g) = []"
      using Cons.prems(2) [of "Suc i"] by simp
    then show "k (prev_after (Some a) (take i u), drop i u @ v, g) = []"
      by (simp add: prev_after_Cons)
  qed
  with Cons.IH [of "Some a"] Cons.prems(1) obtain t where
    "concat (map k (lazy_cls P (Some a) (u @ v) g)) = k (prev_after (Some a) u, v, g) @ t" by auto
  moreover have "k (p, a # u @ v, g) = []"
    using Cons.prems(2) [of 0] by (simp add: prev_after_Nil)
  ultimately show ?case using Cons.prems(1) by (simp add: prev_after_Cons)
qed


lemma run_Group_cls_lazy_first:
  assumes "P1 x" and "\<forall>y\<in>set u. P2 y"
    and "\<And>i p'. i < length u \<Longrightarrow> run rs (p', drop i u @ v, (n, x # take i u) # g) = []"
  shows "\<exists>t. run (Group n (Seq (Cls P1) (LazyStar (Cls P2))) # rs) (p, x # u @ v, g) =
              run rs (prev_after (Some x) u, v, (n, x # u) # g) @ t"
proof -
  let ?cap = "\<lambda>(p', s', g'). (p', s', (n, take (length (x # u @ v) - length s') (x # u @ v)) # g')"
  have run: "run (Group n (Seq (Cls P1) (LazyStar (Cls P2))) # rs) (p, x # u @ v, g) =
          concat (map (run rs \<circ> ?cap) (lazy_cls P2 (Some x) (u @ v) g))"
    using assms(1) by (simp add: lazystar_cls del: matches.simps(7))
  have "\<exists>t. concat (map (run rs \<circ> ?cap) (lazy_cls P2 (Some x) (u @ v) g)) =
          (run rs \<circ> ?cap) (prev_after (Some x) u, v, g) @ t"
  proof (rule lazy_cls_bind_first [OF assms(2)])
    fix i assume i: "i < length u"
    then have "Suc (length u + length v) - (length u - i + length v) = Suc i" by simp
    then show "(run rs \<circ> ?cap) (prev_after (Some x) (take i u), drop i u @ v, g) = []"
      using assms(3) [OF i] by simp
  qed
  then show ?thesis unfolding run by simp
qed

lemma take_diff_dropWhile2:
  "take (Suc (Suc (length s)) - length (dropWhile P s)) (a # y # s) = a # y # takeWhile P s"
proof -
  have "length s = length (takeWhile P s) + length (dropWhile P s)"
    by (metis length_append takeWhile_dropWhile_id)
  then have "Suc (Suc (length s)) - length (dropWhile P s) = Suc (Suc (length (takeWhile P s)))" by simp
  moreover have "take (length (takeWhile P s)) s = takeWhile P s"
    by (metis append_eq_conv_conj takeWhile_dropWhile_id)
  ultimately show ?thesis by simp
qed

lemma run_Group_chr_plus:
  assumes "\<And>p' y s' g'. P y \<Longrightarrow> run rs (p', y # s', g') = []"
  shows "run (Group n (Seq (Chr a) (Plus (Cls P))) # rs) (p, a # y # s, g) =
           (if P y then run rs (prev_after (Some y) (takeWhile P s), dropWhile P s,
                                (n, a # y # takeWhile P s) # g)
            else [])"
proof (cases "P y")
  case False
  then show ?thesis by (simp add: Plus_def)
next
  case True
  let ?cap = "\<lambda>(p', s', g'). (p', s', (n, take (length (a # y # s) - length s') (a # y # s)) # g')"
  have "run (Group n (Seq (Chr a) (Plus (Cls P))) # rs) (p, a # y # s, g) =
          concat (map (run rs \<circ> ?cap) (greedy_cls P (Some y) s g))"
    using True by (simp add: star_cls Plus_def del: matches.simps(6))
  also have "\<dots> = (run rs \<circ> ?cap) (prev_after (Some y) (takeWhile P s), dropWhile P s, g)"
    by (rule greedy_cls_bind) (simp add: assms)
  finally show ?thesis using True by (simp add: take_diff_dropWhile2)
qed


lemma run_Group_plus_cls:
  assumes "\<And>p' y s' g'. P y \<Longrightarrow> run rs (p', y # s', g') = []"
  shows "run (Group n (Plus (Cls P)) # rs) (p, x # s, g) =
           (if P x then run rs (prev_after (Some x) (takeWhile P s), dropWhile P s, (n, x # takeWhile P s) # g)
            else [])"
  unfolding Plus_def using assms by (rule run_Group_cls_star)

declare run.simps(2) [simp del]

lemmas run_step = run_Chr_Cons run_Chr_Nil run_Cls_Cons run_Cls_Nil run_Group_cls_fail
  run_Group_chr_fail run_Group_Nil_fail

section \<open>The inline pattern on a well-formed link\<close>

lemma space_not:
  assumes "is_space x"
  shows "x \<noteq> DOT" "x \<noteq> RPAREN" "x \<noteq> LPAREN" "x \<noteq> LBRACK" "x \<noteq> RBRACK" "x \<noteq> HASH"
    "x \<noteq> DQUOTE" "x \<noteq> SQUOTE" "x \<noteq> COLON" "x \<noteq> SLASH"
  using assms
  by (auto simp: is_space_def DOT_def RPAREN_def LPAREN_def LBRACK_def RBRACK_def HASH_def
      DQUOTE_def SQUOTE_def COLON_def SLASH_def)

lemma not_space [simp]:
  "\<not> is_space DOT" "\<not> is_space RPAREN" "\<not> is_space LPAREN" "\<not> is_space LBRACK"
  "\<not> is_space RBRACK" "\<not> is_space HASH" "\<not> is_space DQUOTE" "\<not> is_space SQUOTE"
  "\<not> is_space COLON" "\<not> is_space SLASH"
  using space_not by blast+

lemma space_NL [simp]: "is_space NL"
  by (simp add: is_space_def NL_def)

lemma chars_distinct [simp]:
  "RPAREN \<noteq> HASH" "HASH \<noteq> RPAREN" "DOT \<noteq> SLASH" "RBRACK \<noteq> LBRACK" "LPAREN \<noteq> RBRACK"
  "RPAREN \<noteq> RBRACK" "LBRACK \<noteq> RBRACK" "RBRACK \<noteq> LPAREN" "RBRACK \<noteq> RPAREN"
  "DQUOTE \<noteq> NL" "SQUOTE \<noteq> NL" "RPAREN \<noteq> SLASH" "HASH \<noteq> SLASH" "COLON \<noteq> RBRACK"
  "RBRACK \<noteq> COLON" "LPAREN \<noteq> COLON" "COLON \<noteq> LPAREN"
  by (simp_all add: DOT_def RPAREN_def LPAREN_def LBRACK_def RBRACK_def HASH_def
      DQUOTE_def SQUOTE_def COLON_def SLASH_def NL_def)

lemma ws_close:
  "run [Star (Cls is_space), Chr RPAREN] (p, s, g) =
     run [Chr RPAREN] (prev_after p (takeWhile is_space s), dropWhile is_space s, g)"
  by (rule run_Star_cls) (simp add: run_step space_not)

lemma inline_tail_plain: "run inline_tail (p, RPAREN # post, g) = [(Some RPAREN, post, g)]"
  unfolding inline_tail_def run_Opt ws_close
  by (simp add: prev_after_Nil run_step)


lemma takeWhile_all: "\<forall>x\<in>set u. P x \<Longrightarrow> \<not> P y \<Longrightarrow> takeWhile P (u @ y # v) = u"
  by (induction u) simp_all

lemma dropWhile_all: "\<forall>x\<in>set u. P x \<Longrightarrow> \<not> P y \<Longrightarrow> dropWhile P (u @ y # v) = y # v"
  by (induction u) simp_all

lemma inline_tail_anchor:
  assumes "A \<noteq> []" and "\<forall>c\<in>set A. c \<noteq> RPAREN \<and> \<not> is_space c"
  shows "\<exists>t. run inline_tail (p, HASH # A @ RPAREN # post, g) =
              (Some RPAREN, post, (3, HASH # A) # g) # t"
proof -
  let ?P = "\<lambda>c. c \<noteq> RPAREN \<and> \<not> is_space c"
  from assms(1) obtain y A' where A: "A = y # A'" by (cases A) auto
  with assms(2) have y: "?P y" and A': "\<forall>c\<in>set A'. ?P c" by auto
  have fails: "\<And>p' y s' g'. ?P y \<Longrightarrow> run [Star (Cls is_space), Chr RPAREN] (p', y # s', g') = []"
    unfolding ws_close by (simp add: run_step)
  have "run (Group 3 (Seq (Chr HASH) (Plus (Cls ?P))) # [Star (Cls is_space), Chr RPAREN])
          (p, HASH # y # (A' @ RPAREN # post), g) =
        (if ?P y then run [Star (Cls is_space), Chr RPAREN]
            (prev_after (Some y) (takeWhile ?P (A' @ RPAREN # post)), dropWhile ?P (A' @ RPAREN # post),
             (3, HASH # y # takeWhile ?P (A' @ RPAREN # post)) # g)
         else [])"
    by (rule run_Group_chr_plus) (rule fails)
  also have "\<dots> = run [Star (Cls is_space), Chr RPAREN]
          (prev_after (Some y) A', RPAREN # post, (3, HASH # y # A') # g)"
    using y takeWhile_all [of A' ?P RPAREN post] dropWhile_all [of A' ?P RPAREN post] A'
    by simp
  also have "\<dots> = [(Some RPAREN, post, (3, HASH # y # A') # g)]"
    unfolding ws_close by (simp add: run_step)
  finally show ?thesis unfolding inline_tail_def run_Opt A by simp
qed

lemma dropWhile_last:
  assumes "d \<noteq> []" and "\<not> P (last d)"
  shows "\<exists>x r. dropWhile P (d @ v) = x # r \<and> x \<in> set d"
  using assms
proof (induction d)
  case Nil
  then show ?case by simp
next
  case (Cons a d)
  show ?case
  proof (cases "d = []")
    case True
    with Cons.prems show ?thesis by simp
  next
    case False
    with Cons show ?thesis by (cases "P a") auto
  qed
qed

lemma inline_tail_fails:
  assumes "d \<noteq> []" "RPAREN \<notin> set d" "HASH \<notin> set d" "\<not> is_space (last d)"
  shows "run inline_tail (p, d @ v, g) = []"
proof -
  from assms(1) obtain a d' where d: "d = a # d'" by (cases d) auto
  with assms(3) have "a \<noteq> HASH" by auto
  then have 1: "run (Group 3 (Seq (Chr HASH) (Plus (Cls (\<lambda>c. c \<noteq> RPAREN \<and> \<not> is_space c)))) #
                 [Star (Cls is_space), Chr RPAREN]) (p, d @ v, g) = []"
    unfolding d by (simp add: run_step)
  from dropWhile_last [of d is_space v, OF assms(1,4)] obtain x r where
    x: "dropWhile is_space (d @ v) = x # r" "x \<in> set d" by blast
  with assms(2) have "x \<noteq> RPAREN" by auto
  with x have 2: "run [Star (Cls is_space), Chr RPAREN] (p, d @ v, g) = []"
    unfolding ws_close by (simp add: run_step)
  show ?thesis unfolding inline_tail_def run_Opt using 1 2 by simp
qed


lemma starts_seg_DOT: "starts_seg (x # s) \<Longrightarrow> x = DOT"
  by (auto simp: starts_seg_def str_def DOT_def)

lemma rel_prefix_DOT: "rel_prefix segs \<Longrightarrow> \<exists>r. concat segs @ v = DOT # r"
  by (cases segs) (auto simp: rel_prefix_def str_def DOT_def)

lemma starts_seg_append:
  assumes "\<not> starts_seg X" "X \<noteq> []" "y \<noteq> SLASH" "y \<noteq> DOT"
  shows "\<not> starts_seg (X @ y # r)"
proof (cases X)
  case Nil
  with assms show ?thesis by simp
next
  case (Cons a X1)
  show ?thesis
  proof (cases X1)
    case Nil
    with Cons assms show ?thesis by (auto simp: starts_seg_def str_def SLASH_def DOT_def)
  next
    case (Cons b X2)
    note c2 = this
    show ?thesis
    proof (cases X2)
      case Nil
      with c2 \<open>X = a # X1\<close> assms show ?thesis by (auto simp: starts_seg_def str_def SLASH_def DOT_def)
    next
      case (Cons c X3)
      with c2 \<open>X = a # X1\<close> assms show ?thesis by (auto simp: starts_seg_def str_def)
    qed
  qed
qed

lemma inline_first:
  assumes L: "is_label L" and segs: "rel_prefix segs" and X: "inline_path X" and A: "inline_anchor A"
  shows "\<exists>t. matches LINK_INLINE_RE
                (p, LBRACK # L @ RBRACK # LPAREN # concat segs @ X @ A @ RPAREN # post, g) =
              (Some RPAREN, post, (if A = [] then [] else [(3, A)]) @ (2, X) # (1, L) # g) # t"
proof -
  let ?NB = "\<lambda>c. c \<noteq> RBRACK"
  let ?P1 = "\<lambda>c. c \<noteq> RPAREN \<and> c \<noteq> HASH \<and> \<not> is_space c"
  let ?P2 = "\<lambda>c. c \<noteq> RPAREN \<and> c \<noteq> HASH"
  let ?G2 = "Group 2 (Seq (Cls ?P1) (LazyStar (Cls ?P2)))"
  let ?r6 = "?G2 # inline_tail"
  let ?r5 = "Star (Cls is_space) # ?r6"
  let ?r4 = "Plus seg # ?r5"
  let ?r3 = "Star (Cls is_space) # ?r4"
  let ?r2 = "Chr RBRACK # Chr LPAREN # ?r3"
  let ?r1 = "Group 1 (Plus (Cls ?NB)) # ?r2"
  let ?v = "A @ RPAREN # post"
  let ?s5 = "X @ ?v"
  let ?s3 = "concat segs @ ?s5"
  let ?gA = "(if A = [] then [] else [(3, A)])"
  from L obtain l L' where Leq: "L = l # L'" and l: "?NB l" and L': "\<forall>c\<in>set L'. ?NB c"
    by (cases L) (auto simp: is_label_def)
  from X obtain x u where Xeq: "X = x # u" by (cases X) (auto simp: inline_path_def)
  with X have x: "?P1 x" and u: "\<forall>c\<in>set u. ?P2 c" and lastX: "\<not> is_space (last (x # u))"
    and nseg: "\<not> starts_seg X"
    by (auto simp: inline_path_def)
  have re: "matches LINK_INLINE_RE st = run (Chr LBRACK # ?r1) st" for st
    unfolding LINK_INLINE_RE_def matches_seqs inline_tail_def ..
  \<comment> \<open>the tail, after the path\<close>
  have tail: "\<exists>t. run inline_tail (q, ?v, h) = (Some RPAREN, post, ?gA @ h) # t" for q h
  proof (cases "A = []")
    case True
    then show ?thesis by (simp add: inline_tail_plain)
  next
    case False
    with A obtain A' where "A = HASH # A'" "A' \<noteq> []" "\<forall>c\<in>set A'. c \<noteq> RPAREN \<and> \<not> is_space c"
      by (cases A) (auto simp: inline_anchor_def)
    then show ?thesis using inline_tail_anchor [of A' q post h] by auto
  qed
  \<comment> \<open>the path: the lazy loop stops at the end of \<open>X\<close>\<close>
  have r6: "\<exists>t. run ?r6 (q, ?s5, h) = (Some RPAREN, post, ?gA @ (2, X) # h) # t" for q h
  proof -
    have "\<exists>t. run ?r6 (q, x # u @ ?v, h) =
            run inline_tail (prev_after (Some x) u, ?v, (2, x # u) # h) @ t"
    proof (rule run_Group_cls_lazy_first)
      show "?P1 x" by (rule x)
      show "\<forall>c\<in>set u. ?P2 c" by (rule u)
      fix i p' assume i: "i < length u"
      then have 1: "drop i u \<noteq> []" by simp
      have "set (drop i u) \<subseteq> set u" by (rule set_drop_subset)
      with u have 2: "RPAREN \<notin> set (drop i u)" and 3: "HASH \<notin> set (drop i u)" by auto
      have "last (drop i u) = last (x # u)" using i by auto
      with lastX have 4: "\<not> is_space (last (drop i u))" by simp
      show "run inline_tail (p', drop i u @ ?v, (2, x # take i u) # h) = []"
        using 1 2 3 4 by (rule inline_tail_fails)
    qed
    then obtain t1 where t1: "run ?r6 (q, x # u @ ?v, h) =
            run inline_tail (prev_after (Some x) u, ?v, (2, x # u) # h) @ t1" ..
    from tail [of "prev_after (Some x) u" "(2, x # u) # h"] obtain t2 where
      t2: "run inline_tail (prev_after (Some x) u, ?v, (2, x # u) # h) =
             (Some RPAREN, post, ?gA @ (2, x # u) # h) # t2" ..
    have "run ?r6 (q, x # u @ ?v, h) = (Some RPAREN, post, ?gA @ (2, x # u) # h) # (t2 @ t1)"
      unfolding t1 t2 by simp
    then show ?thesis unfolding Xeq by simp
  qed
  \<comment> \<open>no blank before the path\<close>
  have "run ?r5 (q, ?s5, h) = run ?r6 (prev_after q (takeWhile is_space ?s5), dropWhile is_space ?s5, h)"
    for q h
    by (rule run_Star_cls) (simp add: run_step)
  then have r5: "run ?r5 (q, ?s5, h) = run ?r6 (q, ?s5, h)" for q h
    using x by (simp add: Xeq prev_after_Nil)
  \<comment> \<open>the prefix\<close>
  have "\<not> starts_seg ?s5"
  proof (cases "A = []")
    case True
    with nseg Xeq show ?thesis using starts_seg_append [of X RPAREN post] by (simp add: RPAREN_def SLASH_def DOT_def)
  next
    case False
    with A obtain A' where "A = HASH # A'" by (cases A) (auto simp: inline_anchor_def)
    with nseg Xeq show ?thesis using starts_seg_append [of X HASH "A' @ RPAREN # post"] by (simp add: HASH_def SLASH_def DOT_def)
  qed
  then have r4: "\<exists>t. run ?r4 (q, ?s3, h) = (Some RPAREN, post, ?gA @ (2, X) # h) # t" for q h
  proof -
    assume ns: "\<not> starts_seg ?s5"
    have "\<exists>t. run ?r4 (q, ?s3, h) = run ?r5 (Some SLASH, ?s5, h) @ t"
      using segs ns by (intro run_Plus_seg_first) (simp_all add: rel_prefix_def)
    then obtain t1 where t1: "run ?r4 (q, ?s3, h) = run ?r5 (Some SLASH, ?s5, h) @ t1" ..
    from r6 [of "Some SLASH" h] obtain t2 where
      t2: "run ?r6 (Some SLASH, ?s5, h) = (Some RPAREN, post, ?gA @ (2, X) # h) # t2" ..
    show ?thesis unfolding t1 r5 t2 by simp
  qed
  \<comment> \<open>no blank before the prefix\<close>
  have "run ?r3 (q, ?s3, h) = run ?r4 (prev_after q (takeWhile is_space ?s3), dropWhile is_space ?s3, h)"
    for q h
  proof (rule run_Star_cls)
    fix p' y s' assume "is_space y"
    then have "\<not> starts_seg (y # s')" using starts_seg_DOT space_not(1) by blast
    then show "run ?r4 (p', y # s', h) = []" by (rule run_Plus_seg_fail)
  qed
  moreover from rel_prefix_DOT [OF segs] obtain r where "?s3 = DOT # r" by blast
  ultimately have r3: "run ?r3 (q, ?s3, h) = run ?r4 (q, ?s3, h)" for q h
    by (simp add: prev_after_Nil)
  \<comment> \<open>the label\<close>
  have "run ?r1 (q, l # L' @ RBRACK # LPAREN # ?s3, h) =
          (if ?NB l then run ?r2 (prev_after (Some l) (takeWhile ?NB (L' @ RBRACK # LPAREN # ?s3)),
                                  dropWhile ?NB (L' @ RBRACK # LPAREN # ?s3),
                                  (1, l # takeWhile ?NB (L' @ RBRACK # LPAREN # ?s3)) # h)
           else [])" for q h
    by (rule run_Group_plus_cls) (simp add: run_step)
  then have "run ?r1 (q, l # L' @ RBRACK # LPAREN # ?s3, h) = run ?r3 (Some LPAREN, ?s3, (1, L) # h)"
    for q h
    using l takeWhile_all [of L' ?NB RBRACK] dropWhile_all [of L' ?NB RBRACK] L'
    by (simp add: run_step Leq)
  with r3 r4 have "\<exists>t. run ?r1 (q, l # L' @ RBRACK # LPAREN # ?s3, h) =
      (Some RPAREN, post, ?gA @ (2, X) # (1, L) # h) # t" for q h
    by simp
  then show ?thesis unfolding re Leq by (simp add: run_step)
qed

lemma str_simps:
  "str ''['' = [LBRACK]" "str '']('' = [RBRACK, LPAREN]" "str '')'' = [RPAREN]"
  "str '']: '' = [RBRACK, COLON, SPACE]" "str '']:'' = [RBRACK, COLON]"
  by (simp_all add: str_def LBRACK_def RBRACK_def LPAREN_def RPAREN_def COLON_def SPACE_def)

lemma dropWhile_hd: "xs \<noteq> [] \<Longrightarrow> \<not> P (hd xs) \<Longrightarrow> dropWhile P xs = xs"
  by (cases xs) simp_all

lemma strip_id:
  assumes "s \<noteq> []" "\<not> is_space (hd s)" "\<not> is_space (last s)"
  shows "strip s = s"
proof -
  from assms(1,2) have 1: "dropWhile is_space s = s" by (rule dropWhile_hd)
  from assms(1) have "rev s \<noteq> []" and "hd (rev s) = last s" by (simp_all add: hd_rev)
  with assms(3) have "dropWhile is_space (rev s) = rev s" by (intro dropWhile_hd) simp_all
  with 1 show ?thesis by (simp add: strip_def)
qed

lemma match_here_first: "matches r (p, s, []) = x # t \<Longrightarrow> match_here r False p s = Some x"
  by (simp add: match_here_def)

lemma match_here_none: "matches r (p, s, []) = [] \<Longrightarrow> match_here r adv p s = None"
  by (simp add: match_here_def)

lemma sub_scan_Nil: "match_here r False p [] = None \<Longrightarrow> sub_scan r f p [] = Inr ([], 0)"
  by (simp add: sub_scan.simps [of r f p "[]"])

lemma sub_scan_whole:
  assumes "match_here r False p s = Some (p', [], g)" "s \<noteq> []" "f g = Inr out"
    and "match_here r False p' [] = None"
  shows "sub_scan r f p s = Inr (out, 1)"
  using assms by (simp add: sub_scan.simps [of r f p s] sub_scan_Nil)

lemma sub_scan_skip:
  assumes "match_here r False p (x # xs) = None"
  shows "sub_scan r f p (x # xs) = copy x (sub_scan r f (Some x) xs)"
  using assms by (simp add: sub_scan.simps [of r f p "x # xs"])

lemma inline_Nil: "matches LINK_INLINE_RE (p, [], g) = []"
  unfolding LINK_INLINE_RE_def matches_seqs by (simp add: run_step)

lemma inline_rule_link:
  assumes L: "is_label L" and segs: "rel_prefix segs" and X: "inline_path X" and A: "inline_anchor A"
  shows "subn LINK_INLINE_RE replace_inline_match
           (str ''['' @ L @ str '']('' @ concat segs @ X @ A @ str '')'') =
         Inr (str ''['' @ L @ str '']('' @ X @ A @ str '')'', 1)"
proof -
  let ?g = "(if A = [] then [] else [(3, A)]) @ [(2, X), (1, L)]"
  let ?doc = "LBRACK # L @ RBRACK # LPAREN # concat segs @ X @ A @ [RPAREN]"
  from inline_first [OF assms, of None "[]" "[]"] obtain t where
    "matches LINK_INLINE_RE (None, ?doc, []) = (Some RPAREN, [], ?g) # t" by auto
  then have m: "match_here LINK_INLINE_RE False None ?doc = Some (Some RPAREN, [], ?g)"
    by (rule match_here_first)
  from X have "strip X = X" by (intro strip_id) (simp_all add: inline_path_def)
  then have r: "replace_inline_match ?g = Inr (LBRACK # L @ RBRACK # LPAREN # X @ A @ [RPAREN])"
    by (simp add: replace_inline_match_def group_def fmt_def or_empty_def str_simps)
  have "sub_scan LINK_INLINE_RE replace_inline_match None ?doc =
          Inr (LBRACK # L @ RBRACK # LPAREN # X @ A @ [RPAREN], 1)"
    using m _ r by (rule sub_scan_whole) (simp_all add: match_here_none inline_Nil)
  then show ?thesis by (simp add: subn_def str_simps)
qed

section \<open>The reference pattern on a well-formed definition\<close>

lemma dropWhile_stop: "v = [] \<or> \<not> P (hd v) \<Longrightarrow> dropWhile P v = v"
  by (cases v) auto

lemma takeWhile_stop: "v = [] \<or> \<not> P (hd v) \<Longrightarrow> takeWhile P v = []"
  by (cases v) auto

lemma takeWhile_run: "\<forall>x\<in>set u. P x \<Longrightarrow> v = [] \<or> \<not> P (hd v) \<Longrightarrow> takeWhile P (u @ v) = u"
  by (induction u) (simp_all add: takeWhile_stop)

lemma dropWhile_run: "\<forall>x\<in>set u. P x \<Longrightarrow> v = [] \<or> \<not> P (hd v) \<Longrightarrow> dropWhile P (u @ v) = v"
  by (induction u) (simp_all add: dropWhile_stop)

lemma greedy_cls_append:
  "\<forall>x\<in>set u. P x \<Longrightarrow> \<exists>t. greedy_cls P p (u @ s) g = greedy_cls P (prev_after p u) s g @ t"
proof (induction u arbitrary: p)
  case Nil
  show ?case by (simp add: prev_after_Nil)
next
  case (Cons a u)
  then obtain t where "greedy_cls P (Some a) (u @ s) g = greedy_cls P (prev_after (Some a) u) s g @ t"
    by fastforce
  with Cons.prems show ?case by (simp add: prev_after_Cons)
qed

lemma greedy_cls_rest:
  "st \<in> set (greedy_cls P p s g) \<Longrightarrow> \<exists>i q. st = (q, drop i s, g)"
proof (induction s arbitrary: p)
  case Nil
  then show ?case by simp
next
  case (Cons a s)
  show ?case
  proof (cases "st = (p, a # s, g)")
    case True
    then have "st = (p, drop 0 (a # s), g)" by simp
    then show ?thesis by blast
  next
    case False
    with Cons.prems have "st \<in> set (greedy_cls P (Some a) s g)" by (auto split: if_splits)
    from Cons.IH [OF this] obtain i q where "st = (q, drop i s, g)" by blast
    then have "st = (q, drop (Suc i) (a # s), g)" by simp
    then show ?thesis by blast
  qed
qed

lemma concat_map_Nil: "(\<And>x. x \<in> set xs \<Longrightarrow> k x = []) \<Longrightarrow> concat (map k xs) = []"
  by (induction xs) simp_all


lemma blanks_Nil [simp]: "blanks []"
  by (simp add: blanks_def)

lemma blanks_hd: "blanks w \<Longrightarrow> w = [] \<or> is_space (hd w)"
  by (cases w) (simp_all add: blanks_def)

lemma line_end:
  assumes "blanks w"
  shows "\<exists>q t. run [Star (Cls is_space), Eol] (p, w, g) = (q, [], g) # t"
proof -
  from assms have "takeWhile is_space w = w" "dropWhile is_space w = []"
    by (simp_all add: blanks_def)
  with run_Star_cls_first [of is_space "[Eol]" p w g] show ?thesis
    by (auto simp: run_Eol_Nil)
qed

lemma line_end_fails: "\<not> is_space y \<Longrightarrow> run [Star (Cls is_space), Eol] (p, y # s, g) = []"
proof -
  assume y: "\<not> is_space y"
  then have "y \<noteq> NL" using space_NL by blast
  with y show ?thesis by (simp add: run.simps(2) star_cls del: matches.simps(6))
qed

lemma title_fails_blanks:
  assumes "blanks w"
  shows "run (title_list @ rs) (p, w, g) = []"
proof (cases w)
  case Nil
  then show ?thesis by (simp add: title_list_def run_Plus run_step)
next
  case (Cons a w')
  with assms have a: "is_space a" and w': "blanks w'" by (simp_all add: blanks_def)
  let ?k = "Cls (\<lambda>c. c = DQUOTE \<or> c = SQUOTE) # Plus (Cls (\<lambda>c. c \<noteq> NL)) #
            Cls (\<lambda>c. c = DQUOTE \<or> c = SQUOTE) # rs"
  have "run (Star (Cls is_space) # ?k) (Some a, w', g) =
          run ?k (prev_after (Some a) (takeWhile is_space w'), dropWhile is_space w', g)"
    by (rule run_Star_cls) (auto simp: run_step dest: space_not)
  also have "\<dots> = []"
  proof -
    from w' have "dropWhile is_space w' = []" by (simp add: blanks_def)
    then show ?thesis by (simp only: run_step)
  qed
  finally show ?thesis using a by (simp add: title_list_def run_Plus run_step Cons)
qed

lemma title_fails_char: "\<not> is_space y \<Longrightarrow> run (title_list @ rs) (p, y # s, g) = []"
  by (simp add: title_list_def run_Plus run_step)

lemma ref_end_plain:
  assumes "blanks w"
  shows "\<exists>q t. run ref_end (p, w, g) = (q, [], g) # t"
  unfolding ref_end_def run_Opt run_seqs title_fails_blanks [OF assms]
  using line_end [OF assms] by simp

lemma ref_end_fails: "\<not> is_space y \<Longrightarrow> run ref_end (p, y # s, g) = []"
  unfolding ref_end_def run_Opt run_seqs by (simp add: title_fails_char line_end_fails)

lemma ref_tail_fails: "\<not> is_space y \<Longrightarrow> y \<noteq> HASH \<Longrightarrow> run ref_tail (p, y # s, g) = []"
  unfolding ref_tail_def run_Opt by (simp add: run_step ref_end_fails)


lemma quote_facts:
  assumes "is_quote q"
  shows "\<not> is_space q" "q \<noteq> NL" "q = DQUOTE \<or> q = SQUOTE"
  using assms by (auto simp: is_quote_def is_space_def DQUOTE_def SQUOTE_def NL_def)

lemma after_title_text:
  assumes t: "\<forall>c\<in>set t. c \<noteq> NL" and q2: "is_quote q2" and w4: "blanks w4"
  shows "\<exists>q r. run [Star (Cls (\<lambda>c. c \<noteq> NL)), Cls (\<lambda>c. c = DQUOTE \<or> c = SQUOTE),
                    Star (Cls is_space), Eol] (p, t @ q2 # w4, g) = (q, [], g) # r"
proof -
  let ?NN = "\<lambda>c. c \<noteq> NL"
  let ?k = "[Cls (\<lambda>c. c = DQUOTE \<or> c = SQUOTE), Star (Cls is_space), Eol]"
  from greedy_cls_append [of t ?NN p "q2 # w4" g] t obtain tt where
    "greedy_cls ?NN p (t @ q2 # w4) g = greedy_cls ?NN (prev_after p t) (q2 # w4) g @ tt" by blast
  then have split: "greedy_cls ?NN p (t @ q2 # w4) g =
      greedy_cls ?NN (Some q2) w4 g @ (prev_after p t, q2 # w4, g) # tt"
    using quote_facts(2) [OF q2] by simp
  have "concat (map (run ?k) (greedy_cls ?NN (Some q2) w4 g)) = []"
  proof (rule concat_map_Nil)
    fix st assume "st \<in> set (greedy_cls ?NN (Some q2) w4 g)"
    then obtain i q where st: "st = (q, drop i w4, g)" using greedy_cls_rest by blast
    have "blanks (drop i w4)" using w4 set_drop_subset [of i w4] by (auto simp: blanks_def)
    then show "run ?k st = []" unfolding st
      by (cases "drop i w4") (auto simp: run_step blanks_def dest: space_not)
  qed
  moreover from line_end [OF w4] obtain q r where
    "run [Star (Cls is_space), Eol] (Some q2, w4, g) = (q, [], g) # r" by blast
  then have "run ?k (prev_after p t, q2 # w4, g) = (q, [], g) # r"
    using quote_facts(3) [OF q2] by (simp add: run_step)
  ultimately have "run (Star (Cls ?NN) # ?k) (p, t @ q2 # w4, g) =
      (q, [], g) # r @ concat (map (run ?k) tt)"
    unfolding run.simps(2) [of "Star (Cls ?NN)"] star_cls split by simp
  then show ?thesis by blast
qed

lemma ref_end_title:
  assumes w5: "w5 \<noteq> []" "blanks w5" and q1: "is_quote q1" and q2: "is_quote q2"
    and t: "t \<noteq> []" "NL \<notin> set t" and w4: "blanks w4"
  shows "\<exists>q r. run ref_end (p, w5 @ q1 # t @ q2 # w4, g) = (q, [], g) # r"
proof -
  let ?Q = "\<lambda>c. c = DQUOTE \<or> c = SQUOTE"
  let ?NN = "\<lambda>c. c \<noteq> NL"
  let ?k3 = "[Star (Cls ?NN), Cls ?Q, Star (Cls is_space), Eol]"
  let ?k1 = "[Cls ?Q, Plus (Cls ?NN), Cls ?Q, Star (Cls is_space), Eol]"
  from w5 obtain a w5' where w5eq: "w5 = a # w5'" and a: "is_space a" and w5': "\<forall>c\<in>set w5'. is_space c"
    by (cases w5) (auto simp: blanks_def)
  from t obtain b t' where teq: "t = b # t'" and b: "b \<noteq> NL" and t': "\<forall>c\<in>set t'. c \<noteq> NL"
    by (cases t) auto
  have "run (Star (Cls is_space) # ?k1) (Some a, w5' @ q1 # t @ q2 # w4, g) =
          run ?k1 (prev_after (Some a) (takeWhile is_space (w5' @ q1 # t @ q2 # w4)),
                   dropWhile is_space (w5' @ q1 # t @ q2 # w4), g)"
    by (rule run_Star_cls) (auto simp: run_step dest: space_not)
  also have "\<dots> = run ?k1 (prev_after (Some a) w5', q1 # t @ q2 # w4, g)"
    using takeWhile_all [of w5' is_space q1] dropWhile_all [of w5' is_space q1] w5'
      quote_facts(1) [OF q1] by simp
  also have "\<dots> = run ?k3 (Some b, t' @ q2 # w4, g)"
    using quote_facts(3) [OF q1] b by (simp add: run_step run_Plus teq)
  finally have 1: "run (title_list @ [Star (Cls is_space), Eol]) (p, w5 @ q1 # t @ q2 # w4, g) =
      run ?k3 (Some b, t' @ q2 # w4, g)"
    using a by (simp add: title_list_def run_Plus run_step w5eq)
  from after_title_text [OF t' q2 w4] obtain q r where
    "run ?k3 (Some b, t' @ q2 # w4, g) = (q, [], g) # r" by blast
  with 1 show ?thesis unfolding ref_end_def run_Opt run_seqs by simp
qed


lemma ref_tail_first:
  assumes A: "ref_anchor A" and R: "R = [] \<or> is_space (hd R)"
    and e: "\<And>p g. \<exists>q t. run ref_end (p, R, g) = (q, [], g) # t"
  shows "\<exists>q t. run ref_tail (p, A @ R, g) = (q, [], (if A = [] then [] else [(3, A)]) @ g) # t"
proof (cases "A = []")
  case True
  have "run (Group 3 (Seq (Chr HASH) (Plus (Cls (\<lambda>c. \<not> is_space c)))) # ref_end) (p, R, g) = []"
    using R by (cases R) (auto simp: run_step dest: space_not)
  with e [of p g] True show ?thesis unfolding ref_tail_def run_Opt by simp
next
  case False
  let ?P = "\<lambda>c. \<not> is_space c"
  from False A obtain y A' where Aeq: "A = HASH # y # A'" and y: "?P y" and A': "\<forall>c\<in>set A'. ?P c"
    by (cases A; cases "tl A") (auto simp: ref_anchor_def)
  have R': "R = [] \<or> \<not> ?P (hd R)" using R by simp
  have "run (Group 3 (Seq (Chr HASH) (Plus (Cls ?P))) # ref_end) (p, HASH # y # (A' @ R), g) =
        (if ?P y then run ref_end
            (prev_after (Some y) (takeWhile ?P (A' @ R)), dropWhile ?P (A' @ R),
             (3, HASH # y # takeWhile ?P (A' @ R)) # g)
         else [])"
    by (rule run_Group_chr_plus) (rule ref_end_fails)
  also have "\<dots> = run ref_end (prev_after (Some y) A', R, (3, A) # g)"
    using y takeWhile_run [OF A' R'] dropWhile_run [OF A' R'] by (simp add: Aeq)
  finally have 1: "run (Group 3 (Seq (Chr HASH) (Plus (Cls ?P))) # ref_end) (p, A @ R, g) =
      run ref_end (prev_after (Some y) A', R, (3, A) # g)"
    by (simp add: Aeq)
  from e [of "prev_after (Some y) A'" "(3, A) # g"] obtain q t where
    "run ref_end (prev_after (Some y) A', R, (3, A) # g) = (q, [], (3, A) # g) # t" by blast
  with 1 False show ?thesis unfolding ref_tail_def run_Opt by simp
qed

lemma ref_first:
  assumes w1: "blanks w1" and L: "is_label L" and w2: "blanks w2" and segs: "rel_prefix segs"
    and w3: "blanks w3" and X: "ref_path X" and nseg: "\<not> starts_seg (w3 @ X)"
    and A: "ref_anchor A" and R: "R = [] \<or> is_space (hd R)"
    and e: "\<And>p g. \<exists>q t. run ref_end (p, R, g) = (q, [], g) # t"
  shows "\<exists>q t. matches REF_LINK_RE
                (None, w1 @ LBRACK # L @ RBRACK # COLON # w2 @ concat segs @ w3 @ X @ A @ R, g) =
              (q, [], (if A = [] then [] else [(3, A)]) @ (2, X) # (1, L) # g) # t"
proof -
  let ?NB = "\<lambda>c. c \<noteq> RBRACK"
  let ?P = "\<lambda>c. \<not> is_space c \<and> c \<noteq> HASH"
  let ?r6 = "Group 2 (Seq (Cls ?P) (Star (Cls ?P))) # ref_tail"
  let ?r5 = "Star (Cls is_space) # ?r6"
  let ?r4 = "Plus seg # ?r5"
  let ?r3 = "Star (Cls is_space) # ?r4"
  let ?r2 = "Chr RBRACK # Chr COLON # ?r3"
  let ?r1 = "Group 1 (Plus (Cls ?NB)) # ?r2"
  let ?r0 = "Star (Cls is_space) # Chr LBRACK # ?r1"
  let ?v = "A @ R"
  let ?s5 = "w3 @ X @ ?v"
  let ?s3 = "concat segs @ ?s5"
  let ?s2 = "w2 @ ?s3"
  let ?gA = "(if A = [] then [] else [(3, A)])"
  from L obtain l L' where Leq: "L = l # L'" and l: "?NB l" and L': "\<forall>c\<in>set L'. ?NB c"
    by (cases L) (auto simp: is_label_def)
  from X obtain x u where Xeq: "X = x # u" and x: "?P x" and u: "\<forall>c\<in>set u. ?P c"
    by (cases X) (auto simp: ref_path_def)
  have re: "matches REF_LINK_RE st = run (Bol # ?r0) st" for st
    unfolding REF_LINK_RE_def matches_seqs ref_tail_def ref_end_def title_list_def ..
  have v: "?v = [] \<or> \<not> ?P (hd ?v)"
  proof (cases "A = []")
    case True
    with R show ?thesis by auto
  next
    case False
    with A show ?thesis by (cases A) (auto simp: ref_anchor_def)
  qed
  \<comment> \<open>the path and what follows it\<close>
  have r6: "\<exists>q t. run ?r6 (p, X @ ?v, h) = (q, [], ?gA @ (2, X) # h) # t" for p h
  proof -
    have "run ?r6 (p, x # (u @ ?v), h) =
            (if ?P x then run ref_tail (prev_after (Some x) (takeWhile ?P (u @ ?v)),
                                        dropWhile ?P (u @ ?v), (2, x # takeWhile ?P (u @ ?v)) # h)
             else [])"
      by (rule run_Group_cls_star) (simp add: ref_tail_fails)
    then have "run ?r6 (p, X @ ?v, h) = run ref_tail (prev_after (Some x) u, ?v, (2, X) # h)"
      using x takeWhile_run [OF u v] dropWhile_run [OF u v] by (simp add: Xeq)
    with ref_tail_first [OF A R e, of "prev_after (Some x) u" "(2, X) # h"] show ?thesis by simp
  qed
  \<comment> \<open>blanks before the path\<close>
  have r5: "\<exists>q t. run ?r5 (p, ?s5, h) = (q, [], ?gA @ (2, X) # h) # t" for p h
  proof -
    have "run ?r5 (p, ?s5, h) =
            run ?r6 (prev_after p (takeWhile is_space ?s5), dropWhile is_space ?s5, h)"
      by (rule run_Star_cls) (simp add: run_step)
    moreover have "takeWhile is_space ?s5 = w3" "dropWhile is_space ?s5 = X @ ?v"
      using w3 x takeWhile_run [of w3 is_space "X @ ?v"] dropWhile_run [of w3 is_space "X @ ?v"]
      by (simp_all add: blanks_def Xeq)
    ultimately show ?thesis using r6 [of "prev_after p w3" h] by simp
  qed
  \<comment> \<open>the prefix\<close>
  have ns: "\<not> starts_seg ?s5"
  proof (cases w3)
    case (Cons a w3')
    with w3 have "is_space a" by (simp add: blanks_def)
    then show ?thesis using starts_seg_DOT [of a "w3' @ X @ ?v"] space_not(1) Cons by auto
  next
    case Nil
    show ?thesis
    proof (cases ?v)
      case Nil
      with \<open>w3 = []\<close> nseg show ?thesis by simp
    next
      case (Cons y r)
      with v have "is_space y \<or> y = HASH" by auto
      then have "y \<noteq> SLASH" "y \<noteq> DOT" using space_not(1,10) by (auto simp: HASH_def SLASH_def DOT_def)
      with nseg \<open>w3 = []\<close> Xeq have "\<not> starts_seg (X @ y # r)"
        by (intro starts_seg_append) simp_all
      with Cons \<open>w3 = []\<close> show ?thesis by simp
    qed
  qed
  have r4: "\<exists>q t. run ?r4 (p, ?s3, h) = (q, [], ?gA @ (2, X) # h) # t" for p h
  proof -
    have "\<exists>t. run ?r4 (p, ?s3, h) = run ?r5 (Some SLASH, ?s5, h) @ t"
      using segs ns by (intro run_Plus_seg_first) (simp_all add: rel_prefix_def)
    then obtain t1 where t1: "run ?r4 (p, ?s3, h) = run ?r5 (Some SLASH, ?s5, h) @ t1" ..
    from r5 [of "Some SLASH" h] obtain q t2 where
      "run ?r5 (Some SLASH, ?s5, h) = (q, [], ?gA @ (2, X) # h) # t2" by blast
    with t1 show ?thesis by simp
  qed
  \<comment> \<open>blanks before the prefix\<close>
  have r3: "\<exists>q t. run ?r3 (p, ?s2, h) = (q, [], ?gA @ (2, X) # h) # t" for p h
  proof -
    have "run ?r3 (p, ?s2, h) =
            run ?r4 (prev_after p (takeWhile is_space ?s2), dropWhile is_space ?s2, h)"
    proof (rule run_Star_cls)
      fix p' y s' assume "is_space y"
      then have "\<not> starts_seg (y # s')" using starts_seg_DOT space_not(1) by blast
      then show "run ?r4 (p', y # s', h) = []" by (rule run_Plus_seg_fail)
    qed
    moreover from rel_prefix_DOT [OF segs] obtain r where "?s3 = DOT # r" by blast
    then have "takeWhile is_space ?s2 = w2" "dropWhile is_space ?s2 = ?s3"
      using w2 takeWhile_run [of w2 is_space ?s3] dropWhile_run [of w2 is_space ?s3]
      by (simp_all add: blanks_def)
    ultimately show ?thesis using r4 [of "prev_after p w2" h] by simp
  qed
  \<comment> \<open>the label\<close>
  have r1: "\<exists>q t. run ?r1 (p, L @ RBRACK # COLON # ?s2, h) = (q, [], ?gA @ (2, X) # (1, L) # h) # t"
    for p h
  proof -
    have "run ?r1 (p, l # L' @ RBRACK # COLON # ?s2, h) =
          (if ?NB l then run ?r2 (prev_after (Some l) (takeWhile ?NB (L' @ RBRACK # COLON # ?s2)),
                                  dropWhile ?NB (L' @ RBRACK # COLON # ?s2),
                                  (1, l # takeWhile ?NB (L' @ RBRACK # COLON # ?s2)) # h)
           else [])"
      by (rule run_Group_plus_cls) (simp add: run_step)
    then have "run ?r1 (p, L @ RBRACK # COLON # ?s2, h) = run ?r3 (Some COLON, ?s2, (1, L) # h)"
      using l takeWhile_all [of L' ?NB RBRACK] dropWhile_all [of L' ?NB RBRACK] L'
      by (simp add: run_step Leq)
    with r3 [of "Some COLON" "(1, L) # h"] show ?thesis by simp
  qed
  \<comment> \<open>the start of the line and the blanks before the label\<close>
  let ?s0 = "LBRACK # L @ RBRACK # COLON # ?s2"
  have "run ?r0 (None, w1 @ ?s0, g) =
          run (Chr LBRACK # ?r1) (prev_after None (takeWhile is_space (w1 @ ?s0)),
                                  dropWhile is_space (w1 @ ?s0), g)"
    by (rule run_Star_cls) (auto simp: run_step dest: space_not)
  moreover have "takeWhile is_space (w1 @ ?s0) = w1" "dropWhile is_space (w1 @ ?s0) = ?s0"
    using w1 takeWhile_run [of w1 is_space ?s0] dropWhile_run [of w1 is_space ?s0]
    by (simp_all add: blanks_def)
  ultimately have "run ?r0 (None, w1 @ ?s0, g) = run ?r1 (Some LBRACK, L @ RBRACK # COLON # ?s2, g)"
    by (simp add: run_step)
  with r1 [of "Some LBRACK" g] show ?thesis unfolding re by (simp add: run_Bol)
qed

lemma ref_Nil: "matches REF_LINK_RE (p, [], g) = []"
  unfolding REF_LINK_RE_def matches_seqs
  by (simp add: run.simps(2) [of Bol] run.simps(2) [of "Star (Cls is_space)"] star_cls run_step
      del: matches.simps(6))

lemma ref_rule_gen:
  assumes w1: "blanks w1" and L: "is_label L" and w2: "blanks w2" and segs: "rel_prefix segs"
    and w3: "blanks w3" and X: "ref_path X" and nseg: "\<not> starts_seg (w3 @ X)"
    and A: "ref_anchor A" and R: "R = [] \<or> is_space (hd R)"
    and e: "\<And>p g. \<exists>q t. run ref_end (p, R, g) = (q, [], g) # t"
  shows "subn REF_LINK_RE replace_ref_match
           (w1 @ str ''['' @ L @ str '']:'' @ w2 @ concat segs @ w3 @ X @ A @ R) =
         Inr (str ''['' @ L @ str '']: '' @ X @ A, 1)"
proof -
  let ?g = "(if A = [] then [] else [(3, A)]) @ [(2, X), (1, L)]"
  let ?doc = "w1 @ LBRACK # L @ RBRACK # COLON # w2 @ concat segs @ w3 @ X @ A @ R"
  from ref_first [OF assms, of "[]"] obtain q t where
    "matches REF_LINK_RE (None, ?doc, []) = (q, [], ?g) # t" by auto
  then have m: "match_here REF_LINK_RE False None ?doc = Some (q, [], ?g)"
    by (rule match_here_first)
  from X have "strip X = X"
    by (intro strip_id) (auto simp: ref_path_def intro: hd_in_set last_in_set)
  then have r: "replace_ref_match ?g = Inr (LBRACK # L @ RBRACK # COLON # SPACE # X @ A)"
    by (simp add: replace_ref_match_def group_def fmt_def or_empty_def str_simps)
  have "sub_scan REF_LINK_RE replace_ref_match None ?doc =
          Inr (LBRACK # L @ RBRACK # COLON # SPACE # X @ A, 1)"
    using m _ r by (rule sub_scan_whole) (simp_all add: match_here_none ref_Nil)
  then show ?thesis by (simp add: subn_def str_simps)
qed

lemma ref_rule_plain:
  assumes "blanks w1" "is_label L" "blanks w2" "rel_prefix segs" "blanks w3" "ref_path X"
    "\<not> starts_seg (w3 @ X)" "ref_anchor A" "blanks w4"
  shows "subn REF_LINK_RE replace_ref_match
           (w1 @ str ''['' @ L @ str '']:'' @ w2 @ concat segs @ w3 @ X @ A @ w4) =
         Inr (str ''['' @ L @ str '']: '' @ X @ A, 1)"
  using assms(1-8) blanks_hd [OF assms(9)] ref_end_plain [OF assms(9)] by (rule ref_rule_gen)

lemma ref_rule_title:
  assumes "blanks w1" "is_label L" "blanks w2" "rel_prefix segs" "blanks w3" "ref_path X"
    "\<not> starts_seg (w3 @ X)" "ref_anchor A"
    and w5: "w5 \<noteq> []" "blanks w5" and q: "is_quote q1" "is_quote q2"
    and t: "t \<noteq> []" "NL \<notin> set t" and w4: "blanks w4"
  shows "subn REF_LINK_RE replace_ref_match
           (w1 @ str ''['' @ L @ str '']:'' @ w2 @ concat segs @ w3 @ X @ A @
            w5 @ q1 # t @ q2 # w4) =
         Inr (str ''['' @ L @ str '']: '' @ X @ A, 1)"
proof -
  have "w5 @ q1 # t @ q2 # w4 = [] \<or> is_space (hd (w5 @ q1 # t @ q2 # w4))"
    using w5 by (cases w5) (auto simp: blanks_def)
  with assms(1-8) show ?thesis
    by (rule ref_rule_gen) (rule ref_end_title [OF w5 q t w4])
qed

section \<open>Where the patterns cannot match\<close>

lemma chr_member: "y \<in> set (matches (Chr a) st) \<Longrightarrow> rest st = a # rest y"
  by (cases st) (auto simp: rest_def split: list.splits if_splits)

lemma bol_member: "y \<in> set (matches Bol st) \<Longrightarrow> y = st"
  by (cases st) (auto split: if_splits)

lemma greedy_cls_member:
  "y \<in> set (greedy_cls P p s g) \<Longrightarrow> \<exists>w. s = w @ rest y \<and> (\<forall>c\<in>set w. P c)"
proof (induction s arbitrary: p)
  case Nil
  then show ?case by (simp add: rest_def)
next
  case (Cons a s)
  show ?case
  proof (cases "y = (p, a # s, g)")
    case True
    then have "a # s = [] @ rest y \<and> (\<forall>c\<in>set []. P c)" by (simp add: rest_def)
    then show ?thesis by blast
  next
    case False
    with Cons.prems have a: "P a" and "y \<in> set (greedy_cls P (Some a) s g)"
      by (auto split: if_splits)
    from Cons.IH [OF this(2)] obtain w where "s = w @ rest y" "\<forall>c\<in>set w. P c" by blast
    with a have "a # s = (a # w) @ rest y \<and> (\<forall>c\<in>set (a # w). P c)" by simp
    then show ?thesis by blast
  qed
qed

lemma star_cls_member:
  "y \<in> set (matches (Star (Cls P)) st) \<Longrightarrow> \<exists>w. rest st = w @ rest y \<and> (\<forall>c\<in>set w. P c)"
  by (cases st) (auto simp: star_cls rest_def dest: greedy_cls_member simp del: matches.simps(6))

lemma star_iter_suffix:
  "\<forall>st y. y \<in> set (f st) \<longrightarrow> (\<exists>w. rest st = w @ rest y) \<Longrightarrow>
   y \<in> set (star_iter f st) \<Longrightarrow> \<exists>w. rest st = w @ rest y"
proof (induction f st arbitrary: y rule: star_iter.induct)
  case (1 f st)
  note step = "1.prems"(1)
  from "1.prems"(2) have
    "y = st \<or> (\<exists>z\<in>set (f st). length (rest z) < length (rest st) \<and> y \<in> set (star_iter f z))"
    by (subst (asm) star_iter.simps) auto
  then show ?case
  proof
    assume "y = st"
    then show ?thesis by simp
  next
    assume "\<exists>z\<in>set (f st). length (rest z) < length (rest st) \<and> y \<in> set (star_iter f z)"
    then obtain z where z: "z \<in> set (f st)" "length (rest z) < length (rest st)"
      "y \<in> set (star_iter f z)" by blast
    then have "z \<in> set (filter (\<lambda>st'. length (rest st') < length (rest st)) (f st))" by simp
    from "1.IH" [OF this step z(3)] obtain w where w: "rest z = w @ rest y" by blast
    from step z(1) obtain w' where "rest st = w' @ rest z" by blast
    with w have "rest st = (w' @ w) @ rest y" by simp
    then show ?thesis by blast
  qed
qed

lemma lazy_iter_suffix:
  "\<forall>st y. y \<in> set (f st) \<longrightarrow> (\<exists>w. rest st = w @ rest y) \<Longrightarrow>
   y \<in> set (lazy_iter f st) \<Longrightarrow> \<exists>w. rest st = w @ rest y"
proof (induction f st arbitrary: y rule: lazy_iter.induct)
  case (1 f st)
  note step = "1.prems"(1)
  from "1.prems"(2) have
    "y = st \<or> (\<exists>z\<in>set (f st). length (rest z) < length (rest st) \<and> y \<in> set (lazy_iter f z))"
    by (subst (asm) lazy_iter.simps) auto
  then show ?case
  proof
    assume "y = st"
    then show ?thesis by simp
  next
    assume "\<exists>z\<in>set (f st). length (rest z) < length (rest st) \<and> y \<in> set (lazy_iter f z)"
    then obtain z where z: "z \<in> set (f st)" "length (rest z) < length (rest st)"
      "y \<in> set (lazy_iter f z)" by blast
    then have "z \<in> set (filter (\<lambda>st'. length (rest st') < length (rest st)) (f st))" by simp
    from "1.IH" [OF this step z(3)] obtain w where w: "rest z = w @ rest y" by blast
    from step z(1) obtain w' where "rest st = w' @ rest z" by blast
    with w have "rest st = (w' @ w) @ rest y" by simp
    then show ?thesis by blast
  qed
qed

lemma matches_suffix: "y \<in> set (matches r st) \<Longrightarrow> \<exists>w. rest st = w @ rest y"
proof (induction r arbitrary: st y)
  case Eps
  then show ?case by simp
next
  case (Chr a)
  then have "rest st = [a] @ rest y" by (simp add: chr_member)
  then show ?case by blast
next
  case (Cls P)
  then have "\<exists>a. rest st = [a] @ rest y"
    by (cases st) (auto simp: rest_def split: list.splits if_splits)
  then show ?case by blast
next
  case (Seq a b)
  then obtain z where z: "z \<in> set (matches a st)" "y \<in> set (matches b z)" by auto
  from Seq.IH(1) [OF z(1)] obtain w where "rest st = w @ rest z" by blast
  moreover from Seq.IH(2) [OF z(2)] obtain w' where "rest z = w' @ rest y" by blast
  ultimately have "rest st = (w @ w') @ rest y" by simp
  then show ?case by blast
next
  case (Alt a b)
  from Alt.prems have "y \<in> set (matches a st) \<or> y \<in> set (matches b st)" by simp
  then show ?case using Alt.IH by blast
next
  case (Star a)
  from Star.prems have "y \<in> set (star_iter (matches a) st)" by simp
  moreover have "\<forall>st y. y \<in> set (matches a st) \<longrightarrow> (\<exists>w. rest st = w @ rest y)"
    using Star.IH by blast
  ultimately show ?case using star_iter_suffix by blast
next
  case (LazyStar a)
  from LazyStar.prems have "y \<in> set (lazy_iter (matches a) st)" by simp
  moreover have "\<forall>st y. y \<in> set (matches a st) \<longrightarrow> (\<exists>w. rest st = w @ rest y)"
    using LazyStar.IH by blast
  ultimately show ?case using lazy_iter_suffix by blast
next
  case (Opt a)
  from Opt.prems have "y \<in> set (matches a st) \<or> y = st" by auto
  then show ?case
  proof
    assume "y \<in> set (matches a st)"
    then show ?thesis by (rule Opt.IH)
  next
    assume "y = st"
    then show ?thesis by simp
  qed
next
  case (Group n a)
  from Group.prems obtain z where "z \<in> set (matches a st)" "rest y = rest z"
    by (cases st) (auto simp: rest_def)
  with Group.IH [of z st] show ?case by simp
next
  case Bol
  then show ?case by (cases st) (auto split: if_splits)
next
  case Eol
  then show ?case by (cases st) (auto split: if_splits list.splits)
qed

lemma run_member:
  "x \<in> set (run (r # rs) st) \<longleftrightarrow> (\<exists>y\<in>set (matches r st). x \<in> set (run rs y))"
  by (simp add: run.simps(2))

lemma plus_seg_member: "y \<in> set (matches (Plus seg) st) \<Longrightarrow> starts_seg (rest st)"
proof -
  assume "y \<in> set (matches (Plus seg) st)"
  then have "matches seg st \<noteq> []" by (auto simp: Plus_def)
  then show ?thesis using seg_some [of "fst st" "rest st" "snd (snd st)"] by (simp add: rest_def)
qed


lemma dropWhile_blanks_seg:
  assumes "\<forall>c\<in>set w. is_space c" and "starts_seg s"
  shows "starts_seg (dropWhile is_space (w @ s))"
proof -
  from assms(2) obtain r where "s = DOT # r"
    by (cases s) (auto simp: starts_seg_def str_def DOT_def)
  with assms show ?thesis using dropWhile_all [of w is_space DOT r] by simp
qed

text \<open>what the text at a match of either pattern looks like\<close>

lemma target_shape:
  assumes "x \<in> set (run (Group 1 (Plus (Cls (\<lambda>c. c \<noteq> RBRACK))) # Chr RBRACK # Chr b #
                       Star (Cls is_space) # Plus seg # rs) st)"
  shows "\<exists>L r. rest st = L @ RBRACK # b # r \<and> starts_seg (dropWhile is_space r)"
proof -
  from assms obtain y1 y2 y3 y4 y5 where
    y1: "y1 \<in> set (matches (Group 1 (Plus (Cls (\<lambda>c. c \<noteq> RBRACK)))) st)" and
    y2: "y2 \<in> set (matches (Chr RBRACK) y1)" and
    y3: "y3 \<in> set (matches (Chr b) y2)" and
    y4: "y4 \<in> set (matches (Star (Cls is_space)) y3)" and
    y5: "y5 \<in> set (matches (Plus seg) y4)"
    unfolding run_member by blast
  from matches_suffix [OF y1] obtain L where "rest st = L @ rest y1" by blast
  moreover from chr_member [OF y2] have "rest y1 = RBRACK # rest y2" .
  moreover from chr_member [OF y3] have "rest y2 = b # rest y3" .
  moreover from star_cls_member [OF y4] obtain w where
    w: "rest y3 = w @ rest y4" "\<forall>c\<in>set w. is_space c" by blast
  moreover from plus_seg_member [OF y5] have "starts_seg (rest y4)" .
  ultimately have "rest st = L @ RBRACK # b # rest y3 \<and> starts_seg (dropWhile is_space (rest y3))"
    using dropWhile_blanks_seg [of w "rest y4"] by simp
  then show ?thesis by blast
qed

lemma hrt_suffix: "has_rel_target v \<Longrightarrow> has_rel_target (u @ v)"
  by (induction u) simp_all

lemma hrt_here:
  "b = LPAREN \<or> b = COLON \<Longrightarrow> starts_seg (dropWhile is_space r) \<Longrightarrow>
   has_rel_target (u @ RBRACK # b # r)"
  by (rule hrt_suffix) simp

lemma inline_match_shape:
  assumes "matches LINK_INLINE_RE (p, s, g) \<noteq> []"
  shows "has_rel_target s"
proof -
  from assms obtain x where "x \<in> set (matches LINK_INLINE_RE (p, s, g))" by (cases "matches LINK_INLINE_RE (p, s, g)") auto
  then obtain y where y: "y \<in> set (matches (Chr LBRACK) (p, s, g))" and
    x: "x \<in> set (run (Group 1 (Plus (Cls (\<lambda>c. c \<noteq> RBRACK))) # Chr RBRACK # Chr LPAREN #
                       Star (Cls is_space) # Plus seg #
          [Star (Cls is_space),
           Group 2 (Seq (Cls (\<lambda>c. c \<noteq> RPAREN \<and> c \<noteq> HASH \<and> \<not> is_space c))
                    (LazyStar (Cls (\<lambda>c. c \<noteq> RPAREN \<and> c \<noteq> HASH)))),
           Opt (Group 3 (Seq (Chr HASH) (Plus (Cls (\<lambda>c. c \<noteq> RPAREN \<and> \<not> is_space c))))),
           Star (Cls is_space), Chr RPAREN]) y)"
    unfolding LINK_INLINE_RE_def matches_seqs run_member by blast
  from target_shape [OF x] obtain L r where
    "rest y = L @ RBRACK # LPAREN # r" "starts_seg (dropWhile is_space r)" by blast
  moreover from chr_member [OF y] have "s = LBRACK # rest y" by (simp add: rest_def)
  ultimately show ?thesis using hrt_here [of LPAREN r "LBRACK # L"] by simp
qed

lemma ref_match_shape:
  assumes "matches REF_LINK_RE (p, s, g) \<noteq> []"
  shows "has_rel_target s"
proof -
  from assms obtain x where "x \<in> set (matches REF_LINK_RE (p, s, g))" by (cases "matches REF_LINK_RE (p, s, g)") auto
  then obtain y0 y1 y2 where y0: "y0 \<in> set (matches Bol (p, s, g))" and
    y1: "y1 \<in> set (matches (Star (Cls is_space)) y0)" and
    y2: "y2 \<in> set (matches (Chr LBRACK) y1)" and
    x: "x \<in> set (run (Group 1 (Plus (Cls (\<lambda>c. c \<noteq> RBRACK))) # Chr RBRACK # Chr COLON #
                       Star (Cls is_space) # Plus seg #
          [Star (Cls is_space),
           Group 2 (Seq (Cls (\<lambda>c. \<not> is_space c \<and> c \<noteq> HASH))
                        (Star (Cls (\<lambda>c. \<not> is_space c \<and> c \<noteq> HASH)))),
           Opt (Group 3 (Seq (Chr HASH) (Plus (Cls (\<lambda>c. \<not> is_space c))))),
           Opt (seqs [ Plus (Cls is_space), Cls (\<lambda>c. c = DQUOTE \<or> c = SQUOTE),
                       Plus (Cls (\<lambda>c. c \<noteq> NL)), Cls (\<lambda>c. c = DQUOTE \<or> c = SQUOTE) ]),
           Star (Cls is_space), Eol]) y2)"
    unfolding REF_LINK_RE_def matches_seqs run_member by blast
  from target_shape [OF x] obtain L r where
    "rest y2 = L @ RBRACK # COLON # r" "starts_seg (dropWhile is_space r)" by blast
  moreover from chr_member [OF y2] have "rest y1 = LBRACK # rest y2" .
  moreover from matches_suffix [OF y1] obtain w where "rest y0 = w @ rest y1" by blast
  moreover from bol_member [OF y0] have "rest y0 = s" by (simp add: rest_def)
  ultimately show ?thesis using hrt_here [of COLON r "w @ LBRACK # L"] by simp
qed

lemma sub_scan_no_match:
  assumes "\<And>u v q. s = u @ v \<Longrightarrow> matches r (q, v, []) = []"
  shows "sub_scan r f p s = Inr (s, 0)"
  using assms
proof (induction s arbitrary: p)
  case Nil
  then show ?case by (simp add: sub_scan_Nil match_here_none)
next
  case (Cons x xs)
  have "matches r (p, x # xs, []) = []" using Cons.prems [of "[]" "x # xs" p] by simp
  then have "sub_scan r f p (x # xs) = copy x (sub_scan r f (Some x) xs)"
    by (intro sub_scan_skip match_here_none)
  moreover have "sub_scan r f (Some x) xs = Inr (xs, 0)"
  proof (rule Cons.IH)
    fix u v q assume "xs = u @ v"
    then have "x # xs = (x # u) @ v" by simp
    then show "matches r (q, v, []) = []" by (rule Cons.prems)
  qed
  ultimately show ?case by simp
qed

lemma flat_inline:
  assumes "\<not> has_rel_target s"
  shows "subn LINK_INLINE_RE f s = Inr (s, 0)"
  unfolding subn_def
proof (rule sub_scan_no_match)
  fix u v q assume "s = u @ v"
  with assms have "\<not> has_rel_target v" using hrt_suffix by blast
  then show "matches LINK_INLINE_RE (q, v, []) = []" using inline_match_shape by blast
qed

lemma flat_ref:
  assumes "\<not> has_rel_target s"
  shows "subn REF_LINK_RE f s = Inr (s, 0)"
  unfolding subn_def
proof (rule sub_scan_no_match)
  fix u v q assume "s = u @ v"
  with assms have "\<not> has_rel_target v" using hrt_suffix by blast
  then show "matches REF_LINK_RE (q, v, []) = []" using ref_match_shape by blast
qed

lemma flat_rewrite: "\<not> has_rel_target s \<Longrightarrow> rewrite_content s = Inr (s, 0)"
  by (simp add: rewrite_content_def flat_inline flat_ref)

lemma hrt_no_rbrack: "RBRACK \<notin> set u \<Longrightarrow> has_rel_target (u @ v) = has_rel_target v"
  by (induction u) simp_all

lemma hrt_no_rbrack_all: "RBRACK \<notin> set u \<Longrightarrow> \<not> has_rel_target u"
  using hrt_no_rbrack [of u "[]"] by simp

lemma target_not_seg:
  assumes "\<not> starts_seg (dropWhile is_space T)"
  shows "\<not> starts_seg (dropWhile is_space (T @ RPAREN # post))"
proof (cases "dropWhile is_space T = []")
  case True
  then have "\<forall>c\<in>set T. is_space c" by simp
  then have "dropWhile is_space (T @ RPAREN # post) = RPAREN # post"
    by (intro dropWhile_all) simp_all
  then show ?thesis using starts_seg_DOT [of RPAREN post] by (auto simp: RPAREN_def DOT_def)
next
  case False
  then obtain c where "c \<in> set T" "\<not> is_space c" by auto
  then have "dropWhile is_space (T @ RPAREN # post) = dropWhile is_space T @ RPAREN # post"
    by (simp add: dropWhile_append1)
  with assms False show ?thesis
    using starts_seg_append [of "dropWhile is_space T" RPAREN post]
    by (simp add: RPAREN_def SLASH_def DOT_def)
qed

lemma flat_link:
  assumes "RBRACK \<notin> set pre" "RBRACK \<notin> set L" "RBRACK \<notin> set T" "RBRACK \<notin> set post"
    and "\<not> starts_seg (dropWhile is_space T)"
  shows "\<not> has_rel_target (pre @ str ''['' @ L @ str '']('' @ T @ str '')'' @ post)"
proof -
  have "RBRACK \<notin> set (pre @ LBRACK # L)" using assms(1,2) by simp
  then have "has_rel_target ((pre @ LBRACK # L) @ RBRACK # LPAREN # T @ RPAREN # post) =
      has_rel_target (RBRACK # LPAREN # T @ RPAREN # post)"
    by (rule hrt_no_rbrack)
  moreover have "\<not> has_rel_target (LPAREN # T @ RPAREN # post)"
    using assms(3,4) by (intro hrt_no_rbrack_all) simp
  ultimately show ?thesis using target_not_seg [OF assms(5)] by (simp add: str_simps)
qed

section \<open>Facts about reading, writing and the scan\<close>

lemma open_read_world: "fst (open_read w p enc) = log_op (OpenRead p enc) w"
  by (simp add: open_read_def Let_def split: option.splits encoding.splits)

lemma open_read_cong: "files w1 p = files w p \<Longrightarrow> snd (open_read w1 p enc) = snd (open_read w p enc)"
  by (simp add: open_read_def Let_def split: option.splits encoding.splits)

lemma log_op_files [simp]: "files (log_op op w) = files w"
  by (simp add: log_op_def)

lemma log_op_oplog [simp]: "oplog (log_op op w) = oplog w @ [op]"
  by (simp add: log_op_def)


lemma read_file_log:
  "oplog (fst (read_file w p)) =
     oplog w @ (case snd (open_read w p UTF8) of
                  Inr c \<Rightarrow> [OpenRead p UTF8]
                | Inl e \<Rightarrow> [OpenRead p UTF8, OpenRead p Latin1])"
proof (cases "open_read w p UTF8")
  case (Pair w1 r)
  then have w1: "w1 = log_op (OpenRead p UTF8) w" using open_read_world [of w p UTF8] by simp
  show ?thesis
  proof (cases r)
    case (Inr c)
    with Pair w1 show ?thesis by (simp add: read_file_def)
  next
    case (Inl e)
    with Pair w1 show ?thesis by (simp add: read_file_def open_read_world)
  qed
qed






















section \<open>The replacement functions never raise\<close>

text \<open>
  Group 2 is not optional in either pattern, so every match has it and
  \<^verbatim>\<open>m.group(2).strip()\<close> is never applied to \<^verbatim>\<open>None\<close>: both rules, and the rewrite of
  a content, always return a text and a count.
\<close>

lemma star_iter_keeps:
  "\<forall>st y. y \<in> set (f st) \<longrightarrow> map_of (grps st) n \<noteq> None \<longrightarrow> map_of (grps y) n \<noteq> None \<Longrightarrow>
   y \<in> set (star_iter f st) \<Longrightarrow> map_of (grps st) n \<noteq> None \<Longrightarrow> map_of (grps y) n \<noteq> None"
proof (induction f st arbitrary: y rule: star_iter.induct)
  case (1 f st)
  note step = "1.prems"(1)
  from "1.prems"(2) have
    "y = st \<or> (\<exists>z\<in>set (f st). length (rest z) < length (rest st) \<and> y \<in> set (star_iter f z))"
    by (subst (asm) star_iter.simps) auto
  then show ?case
  proof
    assume "y = st"
    with "1.prems"(3) show ?thesis by simp
  next
    assume "\<exists>z\<in>set (f st). length (rest z) < length (rest st) \<and> y \<in> set (star_iter f z)"
    then obtain z where z: "z \<in> set (f st)" "length (rest z) < length (rest st)"
      "y \<in> set (star_iter f z)" by blast
    then have m: "z \<in> set (filter (\<lambda>st'. length (rest st') < length (rest st)) (f st))" by simp
    from step z(1) "1.prems"(3) have "map_of (grps z) n \<noteq> None" by blast
    from "1.IH" [OF m step z(3) this] show ?thesis .
  qed
qed

lemma lazy_iter_keeps:
  "\<forall>st y. y \<in> set (f st) \<longrightarrow> map_of (grps st) n \<noteq> None \<longrightarrow> map_of (grps y) n \<noteq> None \<Longrightarrow>
   y \<in> set (lazy_iter f st) \<Longrightarrow> map_of (grps st) n \<noteq> None \<Longrightarrow> map_of (grps y) n \<noteq> None"
proof (induction f st arbitrary: y rule: lazy_iter.induct)
  case (1 f st)
  note step = "1.prems"(1)
  from "1.prems"(2) have
    "y = st \<or> (\<exists>z\<in>set (f st). length (rest z) < length (rest st) \<and> y \<in> set (lazy_iter f z))"
    by (subst (asm) lazy_iter.simps) auto
  then show ?case
  proof
    assume "y = st"
    with "1.prems"(3) show ?thesis by simp
  next
    assume "\<exists>z\<in>set (f st). length (rest z) < length (rest st) \<and> y \<in> set (lazy_iter f z)"
    then obtain z where z: "z \<in> set (f st)" "length (rest z) < length (rest st)"
      "y \<in> set (lazy_iter f z)" by blast
    then have m: "z \<in> set (filter (\<lambda>st'. length (rest st') < length (rest st)) (f st))" by simp
    from step z(1) "1.prems"(3) have "map_of (grps z) n \<noteq> None" by blast
    from "1.IH" [OF m step z(3) this] show ?thesis .
  qed
qed

lemma matches_keeps:
  "y \<in> set (matches r st) \<Longrightarrow> map_of (grps st) n \<noteq> None \<Longrightarrow> map_of (grps y) n \<noteq> None"
proof (induction r arbitrary: st y)
  case Eps
  then show ?case by simp
next
  case (Chr a)
  then show ?case by (cases st) (auto simp: grps_def split: list.splits if_splits)
next
  case (Cls P)
  then show ?case by (cases st) (auto simp: grps_def split: list.splits if_splits)
next
  case (Seq a b)
  from Seq.prems(1) obtain z where z: "z \<in> set (matches a st)" "y \<in> set (matches b z)" by auto
  from Seq.IH(1) [OF z(1) Seq.prems(2)] have "map_of (grps z) n \<noteq> None" .
  from Seq.IH(2) [OF z(2) this] show ?case .
next
  case (Alt a b)
  from Alt.prems(1) have "y \<in> set (matches a st) \<or> y \<in> set (matches b st)" by simp
  then show ?case using Alt.IH Alt.prems(2) by blast
next
  case (Star a)
  from Star.prems(1) have "y \<in> set (star_iter (matches a) st)" by simp
  moreover have "\<forall>st y. y \<in> set (matches a st) \<longrightarrow> map_of (grps st) n \<noteq> None \<longrightarrow>
      map_of (grps y) n \<noteq> None"
    using Star.IH by blast
  ultimately show ?case using star_iter_keeps Star.prems(2) by blast
next
  case (LazyStar a)
  from LazyStar.prems(1) have "y \<in> set (lazy_iter (matches a) st)" by simp
  moreover have "\<forall>st y. y \<in> set (matches a st) \<longrightarrow> map_of (grps st) n \<noteq> None \<longrightarrow>
      map_of (grps y) n \<noteq> None"
    using LazyStar.IH by blast
  ultimately show ?case using lazy_iter_keeps LazyStar.prems(2) by blast
next
  case (Opt a)
  from Opt.prems(1) have "y \<in> set (matches a st) \<or> y = st" by auto
  then show ?case
  proof
    assume "y \<in> set (matches a st)"
    then show ?thesis using Opt.prems(2) by (rule Opt.IH)
  next
    assume "y = st"
    with Opt.prems(2) show ?thesis by simp
  qed
next
  case (Group k a)
  obtain p s g where st: "st = (p, s, g)" by (cases st)
  with Group.prems(1) obtain p' s' g' where
    z: "(p', s', g') \<in> set (matches a st)" and y: "y = (p', s', (k, take (length s - length s') s) # g')"
    by auto
  from Group.IH [OF z Group.prems(2)] have "map_of g' n \<noteq> None" by (simp add: grps_def)
  with y show ?case by (simp add: grps_def)
next
  case Bol
  then show ?case by (cases st) (auto split: if_splits)
next
  case Eol
  then show ?case by (cases st) (auto split: if_splits list.splits)
qed

lemma run_keeps:
  "y \<in> set (run rs st) \<Longrightarrow> map_of (grps st) n \<noteq> None \<Longrightarrow> map_of (grps y) n \<noteq> None"
proof (induction rs arbitrary: st)
  case Nil
  then show ?case by simp
next
  case (Cons r rs)
  from Cons.prems(1) obtain z where z: "z \<in> set (matches r st)" "y \<in> set (run rs z)"
    unfolding run_member by blast
  from matches_keeps [OF z(1) Cons.prems(2)] have "map_of (grps z) n \<noteq> None" .
  from Cons.IH [OF z(2) this] show ?case .
qed

lemma group_sets: "y \<in> set (matches (Group k a) st) \<Longrightarrow> map_of (grps y) k \<noteq> None"
  by (cases st) (auto simp: grps_def)

lemma run_sets:
  assumes "y \<in> set (run (pre @ Group k a # rs) st)"
  shows "map_of (grps y) k \<noteq> None"
proof -
  from assms obtain z where "z \<in> set (run pre st)" "y \<in> set (run (Group k a # rs) z)"
    unfolding run_append by auto
  then obtain z' where "z' \<in> set (matches (Group k a) z)" "y \<in> set (run rs z')"
    unfolding run_member by blast
  then show ?thesis using group_sets run_keeps by blast
qed

lemma inline_sets_path: "y \<in> set (matches LINK_INLINE_RE st) \<Longrightarrow> map_of (grps y) 2 \<noteq> None"
proof -
  assume "y \<in> set (matches LINK_INLINE_RE st)"
  then have "y \<in> set (run ([Chr LBRACK, Group 1 (Plus (Cls (\<lambda>c. c \<noteq> RBRACK))), Chr RBRACK,
       Chr LPAREN, Star (Cls is_space), Plus seg, Star (Cls is_space)] @
       Group 2 (Seq (Cls (\<lambda>c. c \<noteq> RPAREN \<and> c \<noteq> HASH \<and> \<not> is_space c))
                    (LazyStar (Cls (\<lambda>c. c \<noteq> RPAREN \<and> c \<noteq> HASH)))) #
       [Opt (Group 3 (Seq (Chr HASH) (Plus (Cls (\<lambda>c. c \<noteq> RPAREN \<and> \<not> is_space c))))),
        Star (Cls is_space), Chr RPAREN]) st)"
    unfolding LINK_INLINE_RE_def matches_seqs by simp
  then show ?thesis by (rule run_sets)
qed

lemma ref_sets_path: "y \<in> set (matches REF_LINK_RE st) \<Longrightarrow> map_of (grps y) 2 \<noteq> None"
proof -
  assume "y \<in> set (matches REF_LINK_RE st)"
  then have "y \<in> set (run ([Bol, Star (Cls is_space),
       Chr LBRACK, Group 1 (Plus (Cls (\<lambda>c. c \<noteq> RBRACK))), Chr RBRACK, Chr COLON,
       Star (Cls is_space), Plus seg, Star (Cls is_space)] @
       Group 2 (Seq (Cls (\<lambda>c. \<not> is_space c \<and> c \<noteq> HASH))
                    (Star (Cls (\<lambda>c. \<not> is_space c \<and> c \<noteq> HASH)))) #
       [Opt (Group 3 (Seq (Chr HASH) (Plus (Cls (\<lambda>c. \<not> is_space c))))),
        Opt (seqs [ Plus (Cls is_space), Cls (\<lambda>c. c = DQUOTE \<or> c = SQUOTE),
                    Plus (Cls (\<lambda>c. c \<noteq> NL)), Cls (\<lambda>c. c = DQUOTE \<or> c = SQUOTE) ]),
        Star (Cls is_space), Eol]) st)"
    unfolding REF_LINK_RE_def matches_seqs by simp
  then show ?thesis by (rule run_sets)
qed


lemma find_SomeD: "find P xs = Some x \<Longrightarrow> P x \<and> x \<in> set xs"
  by (induction xs) (auto split: if_splits)

lemma emit_ok: "\<exists>out n. emit (Inr t) (Inr (a, b)) = Inr (out, n)"
  by simp

lemma sub_scan_total:
  assumes f: "\<And>adv p s st. match_here r adv p s = Some st \<Longrightarrow> \<exists>t. f (grps st) = Inr t"
  shows "\<exists>out n. sub_scan r f p s = Inr (out, n)"
proof (induction s arbitrary: p rule: length_induct)
  case (1 s)
  note IH = "1.IH" [rule_format]
  have skip: "\<exists>out n. (case s of [] \<Rightarrow> Inr ([], 0) | x # xs \<Rightarrow> copy x (sub_scan r f (Some x) xs)) =
      Inr (out, n)"
  proof (cases s)
    case Nil
    then show ?thesis by simp
  next
    case (Cons x xs)
    then have "length xs < length s" by simp
    from IH [OF this, of "Some x"] obtain out n where "sub_scan r f (Some x) xs = Inr (out, n)"
      by blast
    with Cons show ?thesis by simp
  qed
  show ?case
  proof (cases "match_here r False p s")
    case None
    with skip show ?thesis by (subst sub_scan.simps) simp
  next
    case (Some st)
    obtain p' s' g where st: "st = (p', s', g)" by (cases st)
    from f [OF Some] st obtain t where t: "f g = Inr t" by (auto simp: grps_def)
    show ?thesis
    proof (cases "length s' < length s")
      case True
      from IH [OF True, of p'] obtain out n where "sub_scan r f p' s' = Inr (out, n)" by blast
      with Some st t True show ?thesis by (subst sub_scan.simps) simp
    next
      case False
      show ?thesis
      proof (cases "match_here r True p s")
        case None
        from skip obtain out n where
          "(case s of [] \<Rightarrow> Inr ([], 0) | x # xs \<Rightarrow> copy x (sub_scan r f (Some x) xs)) = Inr (out, n)"
          by blast
        then have "(case s of [] \<Rightarrow> emit (f g) (Inr ([], 0))
                    | x # xs \<Rightarrow> emit (f g) (copy x (sub_scan r f (Some x) xs))) = Inr (t @ out, Suc n)"
          using t by (cases s) auto
        with Some st False None show ?thesis by (subst sub_scan.simps) simp
      next
        case Some2: (Some st2)
        obtain p2 s2 g2 where st2: "st2 = (p2, s2, g2)" by (cases st2)
        from f [OF Some2] st2 obtain t2 where t2: "f g2 = Inr t2" by (auto simp: grps_def)
        from Some2 have "length (rest st2) < length s"
          unfolding match_here_def by (auto dest: find_SomeD)
        with st2 have "length s2 < length s" by (simp add: rest_def)
        from IH [OF this, of p2] obtain out n where "sub_scan r f p2 s2 = Inr (out, n)" by blast
        with Some st False Some2 st2 t t2 show ?thesis by (subst sub_scan.simps) simp
      qed
    qed
  qed
qed

lemma match_here_member: "match_here r adv p s = Some st \<Longrightarrow> st \<in> set (matches r (p, s, []))"
  unfolding match_here_def by (auto dest: find_SomeD)

lemma inline_rule_total: "\<exists>out n. subn LINK_INLINE_RE replace_inline_match s = Inr (out, n)"
  unfolding subn_def
proof (rule sub_scan_total)
  fix adv p s st assume "match_here LINK_INLINE_RE adv p s = Some st"
  then have "map_of (grps st) 2 \<noteq> None" using match_here_member inline_sets_path by blast
  then show "\<exists>t. replace_inline_match (grps st) = Inr t"
    by (auto simp: replace_inline_match_def group_def)
qed

lemma ref_rule_total: "\<exists>out n. subn REF_LINK_RE replace_ref_match s = Inr (out, n)"
  unfolding subn_def
proof (rule sub_scan_total)
  fix adv p s st assume "match_here REF_LINK_RE adv p s = Some st"
  then have "map_of (grps st) 2 \<noteq> None" using match_here_member ref_sets_path by blast
  then show "\<exists>t. replace_ref_match (grps st) = Inr t"
    by (auto simp: replace_ref_match_def group_def)
qed

lemma rewrite_total: "\<exists>c n. rewrite_content s = Inr (c, n)"
proof -
  obtain c1 n1 where 1: "subn LINK_INLINE_RE replace_inline_match s = Inr (c1, n1)"
    using inline_rule_total by blast
  obtain c2 n2 where "subn REF_LINK_RE replace_ref_match c1 = Inr (c2, n2)"
    using ref_rule_total by blast
  with 1 show ?thesis by (simp add: rewrite_content_def)
qed

section \<open>Claims\<close>

lemmas shape_defs = is_label_def rel_prefix_def inline_path_def inline_anchor_def starts_seg_def
  blanks_def ref_path_def ref_anchor_def is_quote_def

lemmas char_defs = str_def NL_def LBRACK_def RBRACK_def LPAREN_def RPAREN_def HASH_def DOT_def
  SLASH_def COLON_def DQUOTE_def SQUOTE_def SPACE_def is_space_def


lemmas world_defs = convert_gitlab_wiki_links_in_dir_def visit_def read_file_def open_read_def
  write_file_def log_op_def is_markdown_name_def endswith_def lower_def lower_cp_def
  os_path_join_def visited_def file_count_def Let_def is_cont_def cont_def latin1_decode_def
  encode_cp_def bytes_of_def plain_file_def

lemmas example_defs = example_world_def example_walk_def locked_world_def latin1_world_def

text \<open>
  C1 (prefix collapse). For a label \<open>L\<close>, a path \<open>X\<close> and any prefix of one or more
  segments \<^verbatim>\<open>../\<close> or \<^verbatim>\<open>./\<close>, the inline rule turns the document \<^verbatim>\<open>[L](prefix X)\<close>
  into \<^verbatim>\<open>[L](X)\<close> with one replacement: all the segments go, nothing else changes,
  and the result does not depend on how many segments there were.
\<close>

theorem inline_prefix_collapse:
  assumes "is_label L" and "rel_prefix segs" and "inline_path X"
  shows "subn LINK_INLINE_RE replace_inline_match
           (str ''['' @ L @ str '']('' @ concat segs @ X @ str '')'') =
         Inr (str ''['' @ L @ str '']('' @ X @ str '')'', 1)"
  using inline_rule_link [OF assms, of "[]"] by (simp add: inline_anchor_def)

theorem inline_prefix_collapse_witness:
  "subn LINK_INLINE_RE replace_inline_match (str ''[L](../../X)'') = Inr (str ''[L](X)'', 1) \<and>
   subn LINK_INLINE_RE replace_inline_match (str ''[L](./X)'') = Inr (str ''[L](X)'', 1) \<and>
   subn LINK_INLINE_RE replace_inline_match (str ''[L](../X)'') = Inr (str ''[L](X)'', 1)"
  using inline_prefix_collapse [of "str ''L''" "[str ''../'', str ''../'']" "str ''X''"]
    inline_prefix_collapse [of "str ''L''" "[str ''./'']" "str ''X''"]
    inline_prefix_collapse [of "str ''L''" "[str ''../'']" "str ''X''"]
  by (simp add: shape_defs char_defs)

text \<open>
  C4 (anchor preservation). For a label \<open>L\<close>, a page name \<open>P\<close> and a section \<open>S\<close>, the
  inline rule turns \<^verbatim>\<open>[L](prefix P#S)\<close> into \<^verbatim>\<open>[L](P#S)\<close>, and the reference rule
  turns the line \<^verbatim>\<open>[L]: prefix P#S\<close> into \<^verbatim>\<open>[L]: P#S\<close>: the anchor is kept as it is.
\<close>

theorem anchor_preserved:
  assumes "is_label L" and "rel_prefix segs" and "S \<noteq> []"
  shows "(inline_path P \<and> (\<forall>c\<in>set S. c \<noteq> RPAREN \<and> \<not> is_space c) \<longrightarrow>
            subn LINK_INLINE_RE replace_inline_match
              (str ''['' @ L @ str '']('' @ concat segs @ P @ str ''#'' @ S @ str '')'') =
            Inr (str ''['' @ L @ str '']('' @ P @ str ''#'' @ S @ str '')'', 1)) \<and>
         (ref_path P \<and> \<not> starts_seg P \<and> (\<forall>c\<in>set S. \<not> is_space c) \<longrightarrow>
            subn REF_LINK_RE replace_ref_match
              (str ''['' @ L @ str '']: '' @ concat segs @ P @ str ''#'' @ S) =
            Inr (str ''['' @ L @ str '']: '' @ P @ str ''#'' @ S, 1))"
proof (intro conjI impI)
  have hash: "str ''#'' = [HASH]" by (simp add: str_def HASH_def)
  {
    assume "inline_path P \<and> (\<forall>c\<in>set S. c \<noteq> RPAREN \<and> \<not> is_space c)"
    then have P: "inline_path P" and "inline_anchor (HASH # S)"
      using assms(3) by (simp_all add: inline_anchor_def)
    with inline_rule_link [OF assms(1,2) P, of "HASH # S"]
    show "subn LINK_INLINE_RE replace_inline_match
              (str ''['' @ L @ str '']('' @ concat segs @ P @ str ''#'' @ S @ str '')'') =
            Inr (str ''['' @ L @ str '']('' @ P @ str ''#'' @ S @ str '')'', 1)"
      by (simp add: hash)
  }
  {
    assume "ref_path P \<and> \<not> starts_seg P \<and> (\<forall>c\<in>set S. \<not> is_space c)"
    then have P: "ref_path P" and n: "\<not> starts_seg ([] @ P)" and A: "ref_anchor (HASH # S)"
      using assms(3) by (simp_all add: ref_anchor_def)
    have b: "blanks []" "blanks [SPACE]" by (simp_all add: blanks_def is_space_def SPACE_def)
    from ref_rule_plain [OF b(1) assms(1) b(2) assms(2) b(1) P n A b(1)]
    show "subn REF_LINK_RE replace_ref_match
              (str ''['' @ L @ str '']: '' @ concat segs @ P @ str ''#'' @ S) =
            Inr (str ''['' @ L @ str '']: '' @ P @ str ''#'' @ S, 1)"
      by (simp add: hash str_simps)
  }
qed

theorem anchor_preserved_witness:
  "subn LINK_INLINE_RE replace_inline_match (str ''[L](../Page#section)'') =
     Inr (str ''[L](Page#section)'', 1) \<and>
   subn REF_LINK_RE replace_ref_match (str ''[Ref]: ../Page#section'') =
     Inr (str ''[Ref]: Page#section'', 1)"
  using anchor_preserved [of "str ''L''" "[str ''../'']" "str ''section''" "str ''Page''"]
    anchor_preserved [of "str ''Ref''" "[str ''../'']" "str ''section''" "str ''Page''"]
  by (simp add: shape_defs char_defs)

text \<open>
  C5 (title dropping). A reference definition with a prefix, a path, maybe an anchor,
  and then blanks and a quoted title on the same line is rewritten to
  \<^verbatim>\<open>[L]: path#anchor\<close>: the title and its quotes are gone.
\<close>

theorem title_dropped:
  assumes "is_label L" and "rel_prefix segs" and "ref_path P" and "\<not> starts_seg P"
    and "ref_anchor A" and "w \<noteq> []" and "blanks w" and "is_quote q1" and "is_quote q2"
    and "T \<noteq> []" and "NL \<notin> set T"
  shows "subn REF_LINK_RE replace_ref_match
           (str ''['' @ L @ str '']: '' @ concat segs @ P @ A @ w @ [q1] @ T @ [q2]) =
         Inr (str ''['' @ L @ str '']: '' @ P @ A, 1)"
proof -
  have b: "blanks []" "blanks [SPACE]" by (simp_all add: blanks_def is_space_def SPACE_def)
  from assms(4) have n: "\<not> starts_seg ([] @ P)" by simp
  from ref_rule_title [OF b(1) assms(1) b(2) assms(2) b(1) assms(3) n assms(5-11) b(1)]
  show ?thesis by (simp add: str_simps)
qed

theorem title_dropped_witness:
  "subn REF_LINK_RE replace_ref_match (str ''[Ref]: ../Page \"Some Title\"'') =
     Inr (str ''[Ref]: Page'', 1)"
  using title_dropped [of "str ''Ref''" "[str ''../'']" "str ''Page''" "[]" "str '' ''"
      DQUOTE DQUOTE "str ''Some Title''"]
  by (simp add: shape_defs char_defs)

text \<open>
  C10 (layout of a rewritten reference definition). Whatever blanks stand before the
  label, after the colon, between prefix and path and at the end, the rewritten
  definition is \<^verbatim>\<open>[label]: path\<close> followed by the anchor if there is one: no leading
  blanks, one space after the colon, no trailing blanks.
\<close>

theorem ref_layout_normalized:
  assumes "blanks w1" and "is_label L" and "blanks w2" and "rel_prefix segs" and "blanks w3"
    and "ref_path X" and "\<not> starts_seg (w3 @ X)" and "ref_anchor A" and "blanks w4"
  shows "subn REF_LINK_RE replace_ref_match
           (w1 @ str ''['' @ L @ str '']:'' @ w2 @ concat segs @ w3 @ X @ A @ w4) =
         Inr (str ''['' @ L @ str '']: '' @ X @ A, 1)"
  using assms by (rule ref_rule_plain)

theorem ref_layout_normalized_witness:
  "subn REF_LINK_RE replace_ref_match (str ''   [a]:../  b#c  '') = Inr (str ''[a]: b#c'', 1) \<and>
   subn REF_LINK_RE replace_ref_match (str ''[a]:    ./b'' @ [9, NL]) = Inr (str ''[a]: b'', 1)"
  using ref_layout_normalized [of "str ''   ''" "str ''a''" "[]" "[str ''../'']" "str ''  ''"
      "str ''b''" "str ''#c''" "str ''  ''"]
    ref_layout_normalized [of "[]" "str ''a''" "str ''    ''" "[str ''./'']" "[]"
      "str ''b''" "[]" "[9, NL]"]
  by (simp add: shape_defs char_defs)

text \<open>
  C6 (passthrough). A link whose target does not begin, after blanks or none, with
  \<^verbatim>\<open>../\<close> or \<^verbatim>\<open>./\<close> is matched by neither rule, and a document that holds it
  between texts without \<^verbatim>\<open>]\<close> comes back unchanged with no replacement. Absolute URLs
  and absolute paths are such targets.
\<close>

theorem non_relative_passthrough:
  assumes "RBRACK \<notin> set pre" and "RBRACK \<notin> set L" and "RBRACK \<notin> set T"
    and "RBRACK \<notin> set post" and "\<not> starts_seg (dropWhile is_space T)"
  shows "subn LINK_INLINE_RE replace_inline_match
           (pre @ str ''['' @ L @ str '']('' @ T @ str '')'' @ post) =
           Inr (pre @ str ''['' @ L @ str '']('' @ T @ str '')'' @ post, 0) \<and>
         subn REF_LINK_RE replace_ref_match
           (pre @ str ''['' @ L @ str '']('' @ T @ str '')'' @ post) =
           Inr (pre @ str ''['' @ L @ str '']('' @ T @ str '')'' @ post, 0) \<and>
         rewrite_content (pre @ str ''['' @ L @ str '']('' @ T @ str '')'' @ post) =
           Inr (pre @ str ''['' @ L @ str '']('' @ T @ str '')'' @ post, 0)"
  using flat_link [OF assms] by (simp add: flat_inline flat_ref flat_rewrite)

theorem non_relative_passthrough_witness:
  "rewrite_content (str ''[L](https://example.com/x)'') = Inr (str ''[L](https://example.com/x)'', 0) \<and>
   rewrite_content (str ''[L](/absolute/x)'') = Inr (str ''[L](/absolute/x)'', 0) \<and>
   subn LINK_INLINE_RE replace_inline_match (str ''see [L](/absolute/x) here'') =
     Inr (str ''see [L](/absolute/x) here'', 0)"
  using non_relative_passthrough [of "[]" "str ''L''" "str ''https://example.com/x''" "[]"]
    non_relative_passthrough [of "[]" "str ''L''" "str ''/absolute/x''" "[]"]
    non_relative_passthrough [of "str ''see ''" "str ''L''" "str ''/absolute/x''" "str '' here''"]
  by (simp add: shape_defs char_defs)








text \<open>
  C8 (decoding fallback) does not hold where it says that only a decoding failure
  starts the fallback: the handler is \<^verbatim>\<open>except Exception\<close>, so a file that may not
  be read makes the program try again with Latin-1 as well; that attempt raises the
  error, which then leaves the scan.
\<close>

theorem fallback_counterexample:
  "snd (open_read locked_world (str ''wiki/a.md'') UTF8) = Inl PermissionError \<and>
   oplog (fst (read_file locked_world (str ''wiki/a.md''))) =
     [OpenRead (str ''wiki/a.md'') UTF8, OpenRead (str ''wiki/a.md'') Latin1] \<and>
   snd (read_file locked_world (str ''wiki/a.md'')) = Inl PermissionError"
  by (simp add: example_defs world_defs char_defs)

text \<open>
  C8 (decoding fallback), amended. A file that can be read and is not valid UTF-8 is
  read as Latin-1, and
  no error comes out; whatever the first attempt raises, a second attempt with
  Latin-1 is made and its outcome is the outcome of the read; a file that may not be
  read, or is not there, ends in that error.
\<close>

theorem read_fallback:
  "(files w p = Some nd \<and> readable nd \<and> utf8_decode (data nd) = None \<longrightarrow>
      snd (read_file w p) = Inr (universal_newlines (latin1_decode (data nd)))) \<and>
   (snd (open_read w p UTF8) = Inl e \<longrightarrow>
      oplog (fst (read_file w p)) = oplog w @ [OpenRead p UTF8, OpenRead p Latin1] \<and>
      snd (read_file w p) = snd (open_read w p Latin1)) \<and>
   (files w p = Some nd \<and> \<not> readable nd \<longrightarrow> snd (read_file w p) = Inl PermissionError) \<and>
   (files w p = None \<longrightarrow> snd (read_file w p) = Inl FileNotFoundError)"
proof (intro conjI impI)
  assume "files w p = Some nd \<and> readable nd \<and> utf8_decode (data nd) = None"
  then show "snd (read_file w p) = Inr (universal_newlines (latin1_decode (data nd)))"
    by (simp add: read_file_def open_read_def Let_def log_op_def)
next
  assume e: "snd (open_read w p UTF8) = Inl e"
  then show "oplog (fst (read_file w p)) = oplog w @ [OpenRead p UTF8, OpenRead p Latin1]"
    by (simp add: read_file_log)
  obtain w1 r where o: "open_read w p UTF8 = (w1, r)" by (cases "open_read w p UTF8")
  with e have r: "r = Inl e" by simp
  from o have "w1 = log_op (OpenRead p UTF8) w" using open_read_world [of w p UTF8] by simp
  then have "snd (open_read w1 p Latin1) = snd (open_read w p Latin1)"
    by (intro open_read_cong) simp
  with o r show "snd (read_file w p) = snd (open_read w p Latin1)"
    by (simp add: read_file_def)
next
  assume "files w p = Some nd \<and> \<not> readable nd"
  then show "snd (read_file w p) = Inl PermissionError"
    by (simp add: read_file_def open_read_def Let_def log_op_def)
next
  assume "files w p = None"
  then show "snd (read_file w p) = Inl FileNotFoundError"
    by (simp add: read_file_def open_read_def Let_def log_op_def)
qed

theorem read_fallback_witness:
  "utf8_decode [99, 97, 102, 233] = None \<and>
   snd (read_file latin1_world (str ''wiki/a.md'')) = Inr [99, 97, 102, 233] \<and>
   oplog (fst (read_file latin1_world (str ''wiki/a.md''))) =
     [OpenRead (str ''wiki/a.md'') UTF8, OpenRead (str ''wiki/a.md'') Latin1] \<and>
   snd (read_file latin1_world (str ''nowhere.md'')) = Inl FileNotFoundError"
  using read_fallback [of latin1_world "str ''wiki/a.md''" "plain_file [99, 97, 102, 233]"
      UnicodeDecodeError]
    read_fallback [of latin1_world "str ''nowhere.md''" "plain_file []" FileNotFoundError]
  by (simp add: example_defs world_defs char_defs)



end
